theory Spec2Isabelle
  imports Main "HOL-Library.Word"
begin

section \<open>Data model of nparray.hpp\<close>

text \<open>
  \<^verbatim>\<open>size_t\<close> and \<^verbatim>\<open>uint64_t\<close> are 64-bit unsigned integers: \<open>+\<close> and \<open>*\<close> wrap.
  Positions in a vector or string are natural numbers. A \<^verbatim>\<open>char\<close> buffer is a list of
  \<open>char\<close> (a \<open>char\<close> of HOL is one byte).
\<close>

type_synonym size_t = "64 word"

text \<open>
  \<^verbatim>\<open>enum class DType\<close>. \<open>CHAR\<close> is taken by the syntax of HOL, hence \<open>CHAR'\<close>.
\<close>

datatype DType = CHAR' | UCHAR | INT16 | INT32 | INT64 | UINT16 | UINT32 | UINT64
  | FLOAT32 | DOUBLE64 | COMPLEX64 | COMPLEX128

text \<open>
  The exceptions the source throws, one constructor per \<^verbatim>\<open>throw\<close> site kind.
  \<open>IndexOutOfRange\<close> is the \<^verbatim>\<open>std::out_of_range\<close> of \<^verbatim>\<open>check_indices\<close>; the two
  \<open>Stoi\<close> constructors are what \<^verbatim>\<open>std::stoi\<close> throws; \<open>LengthError\<close> and \<open>BadAlloc\<close> are
  the \<^verbatim>\<open>std::length_error\<close> and \<^verbatim>\<open>std::bad_alloc\<close> of \<^verbatim>\<open>std::vector::resize\<close>; all others
  are \<^verbatim>\<open>std::runtime_error\<close> with the message of that site.
\<close>

datatype exn =
    ShapeEmpty
  | ShapeIncompatible
  | ImproperNumberOfIndices
  | IndexOutOfRange
  | DatatypeNotSupported
  | DTypeMismatch
  | InvalidNpyFile
  | UnknownDataType string
  | CannotSwapBytes nat
  | StoiInvalidArgument
  | StoiOutOfRange
  | LengthError
  | BadAlloc

text \<open>
  A call either returns, throws, or leaves defined behaviour (an access outside a
  buffer, a read of memory never written): the source raises nothing there, so
  \<open>Undefined\<close> is kept apart from \<open>Throw\<close>.
\<close>

datatype fault = Throw exn | Undefined

type_synonym 'a result = "fault + 'a"

definition bind :: "'a result \<Rightarrow> ('a \<Rightarrow> 'b result) \<Rightarrow> 'b result" where
  "bind r f = (case r of Inl e \<Rightarrow> Inl e | Inr v \<Rightarrow> f v)"

text \<open>
  The private members \<^verbatim>\<open>data_\<close>, \<^verbatim>\<open>shape_\<close>, \<^verbatim>\<open>c_continuous_\<close> and \<^verbatim>\<open>dimensions_\<close>;
  a name cannot end in an underscore here, so each carries a prime instead.
\<close>

record 'a NPArray =
  data' :: "'a list"
  shape' :: "size_t list"
  c_continuous' :: bool
  dimensions' :: nat

section \<open>Constructors, reshape, reallocate\<close>

text \<open>
  \<^verbatim>\<open>size_t ne = init_shape[0]; for(i = 1; i < dimensions_; i++) ne *= init_shape[i];\<close>
  The same loop computes the element count in both constructors, in \<^verbatim>\<open>load\<close>,
  \<^verbatim>\<open>reshape\<close>, \<^verbatim>\<open>reallocate\<close>, \<^verbatim>\<open>load_npy\<close> and \<^verbatim>\<open>write_npy\<close>. It is only reached
  with a non-empty shape, except in \<^verbatim>\<open>write_npy\<close> and \<^verbatim>\<open>load_npy\<close>.
\<close>

fun ne_loop :: "size_t \<Rightarrow> size_t list \<Rightarrow> size_t" where
  "ne_loop ne [] = ne"
| "ne_loop ne (s # ss) = ne_loop (ne * s) ss"

fun number_of_elements :: "size_t list \<Rightarrow> size_t result" where
  "number_of_elements [] = Inl Undefined"
| "number_of_elements (s # ss) = Inr (ne_loop s ss)"

text \<open>
  What decides whether a vector can grow: \<^verbatim>\<open>max_size()\<close> of the vector type, and the
  greatest element count for which the allocator still grants the storage at this call.
  Both belong to the platform and are parameters of the model. They bear on
  \<^verbatim>\<open>data_.resize(ne)\<close> in the shape constructor and in \<^verbatim>\<open>reallocate\<close>, where the call
  comes after \<^verbatim>\<open>shape_\<close> and \<^verbatim>\<open>dimensions_\<close> have been assigned; the copies of vectors
  and strings and the buffers of \<^verbatim>\<open>load_npy\<close> are taken to be granted.
\<close>

record allocator =
  max_size :: nat
  available :: nat

text \<open>
  \<^verbatim>\<open>std::vector::resize(n)\<close>: truncates, or appends value-initialised elements
  (\<open>z\<close>). Truncation needs no storage. Growth beyond \<^verbatim>\<open>max_size()\<close> throws
  \<^verbatim>\<open>std::length_error\<close>, growth the allocator refuses throws \<^verbatim>\<open>std::bad_alloc\<close>; in both
  cases the vector is as it was before the call.
\<close>

definition resize :: "allocator \<Rightarrow> 'a \<Rightarrow> nat \<Rightarrow> 'a list \<Rightarrow> 'a list result" where
  "resize m z n xs =
     (if n \<le> length xs then Inr (take n xs)
      else if max_size m < n then Inl (Throw LengthError)
      else if available m < n then Inl (Throw BadAlloc)
      else Inr (xs @ replicate (n - length xs) z))"

text \<open>
  \<^verbatim>\<open>NPArray() {}\<close>: the vectors are empty; \<^verbatim>\<open>c_continuous_\<close> and \<^verbatim>\<open>dimensions_\<close> are
  not initialised, so their values are parameters of the model.
\<close>

definition NPArray_default :: "bool \<Rightarrow> nat \<Rightarrow> 'a NPArray" where
  "NPArray_default c d = \<lparr>data' = [], shape' = [], c_continuous' = c, dimensions' = d\<rparr>"

definition NPArray_shape :: "allocator \<Rightarrow> 'a \<Rightarrow> size_t list \<Rightarrow> bool \<Rightarrow> 'a NPArray result" where
  "NPArray_shape m z init_shape c_continuous =
     (if length init_shape > 0 then
        bind (number_of_elements init_shape) (\<lambda>ne.
          bind (resize m z (unat ne) []) (\<lambda>data.
            Inr \<lparr>data' = data, shape' = init_shape,
                 c_continuous' = c_continuous, dimensions' = length init_shape\<rparr>))
      else Inl (Throw ShapeEmpty))"

definition NPArray_data :: "'a list \<Rightarrow> size_t list \<Rightarrow> bool \<Rightarrow> 'a NPArray result" where
  "NPArray_data data init_shape c_continuous =
     (if length init_shape > 0 then
        bind (number_of_elements init_shape) (\<lambda>ne.
          if unat ne \<noteq> length data then Inl (Throw ShapeIncompatible)
          else Inr \<lparr>data' = data, shape' = init_shape,
                    c_continuous' = c_continuous, dimensions' = length init_shape\<rparr>)
      else Inl (Throw ShapeEmpty))"

text \<open>
  The two mutators return the outcome of the call together with the array as it is
  afterwards, so that what a failed call leaves behind is part of the model.
  \<^verbatim>\<open>reallocate\<close> assigns \<^verbatim>\<open>shape_\<close> and \<^verbatim>\<open>dimensions_\<close> and then calls
  \<^verbatim>\<open>data_.resize(ne)\<close>: when that call throws, the new shape stays over the old buffer.
\<close>

definition reshape :: "'a NPArray \<Rightarrow> size_t list \<Rightarrow> unit result \<times> 'a NPArray" where
  "reshape a new_shape =
     (if length new_shape < 1 then (Inl (Throw ShapeEmpty), a)
      else case number_of_elements new_shape of
          Inl e \<Rightarrow> (Inl e, a)
        | Inr ne \<Rightarrow>
            if unat ne = length (data' a)
            then (Inr (), a\<lparr>shape' := new_shape, dimensions' := length new_shape\<rparr>)
            else (Inl (Throw ShapeIncompatible), a))"

definition reallocate :: "allocator \<Rightarrow> 'a \<Rightarrow> 'a NPArray \<Rightarrow> size_t list
    \<Rightarrow> unit result \<times> 'a NPArray" where
  "reallocate m z a new_shape =
     (if length new_shape < 1 then (Inl (Throw ShapeEmpty), a)
      else case number_of_elements new_shape of
          Inl e \<Rightarrow> (Inl e, a)
        | Inr ne \<Rightarrow>
            let a = a\<lparr>shape' := new_shape, dimensions' := length new_shape\<rparr>
            in case resize m z (unat ne) (data' a) of
                 Inl e \<Rightarrow> (Inl e, a)
               | Inr resized \<Rightarrow> (Inr (), a\<lparr>data' := resized\<rparr>))"

definition shape :: "'a NPArray \<Rightarrow> size_t list" where
  "shape a = shape' a"

definition size_of :: "'a NPArray \<Rightarrow> nat" where
  "size_of a = length (data' a)"

section \<open>Layout engine\<close>

text \<open>
  \<^verbatim>\<open>check_indices\<close>: the count test, then the loop over \<^verbatim>\<open>i < dimensions_\<close>. A read of
  \<^verbatim>\<open>shape_[i]\<close> outside the vector (possible only when \<^verbatim>\<open>dimensions_\<close> was never set) is
  \<open>Undefined\<close>.
\<close>

function check_indices_loop :: "size_t list \<Rightarrow> nat \<Rightarrow> size_t list \<Rightarrow> nat \<Rightarrow> unit result" where
  "check_indices_loop shp dims indices i =
     (if i < dims then
        (if length indices \<le> i \<or> length shp \<le> i then Inl Undefined
         else if indices ! i \<ge> shp ! i then Inl (Throw IndexOutOfRange)
         else check_indices_loop shp dims indices (Suc i))
      else Inr ())"
  by pat_completeness auto
termination
  by (relation "measure (\<lambda>(shp, dims, indices, i). dims - i)") auto

declare check_indices_loop.simps [simp del]

definition check_indices :: "'a NPArray \<Rightarrow> size_t list \<Rightarrow> unit result" where
  "check_indices a indices =
     (if length indices \<noteq> dimensions' a then Inl (Throw ImproperNumberOfIndices)
      else check_indices_loop (shape' a) (dimensions' a) indices 0)"

text \<open>
  \<^verbatim>\<open>for(size_t i = dimensions_ - 1; i > 0; i--) { coeff *= shape_[i]; indx += coeff * indices[i-1]; }\<close>
\<close>

fun c_loop :: "size_t list \<Rightarrow> size_t list \<Rightarrow> nat \<Rightarrow> size_t \<Rightarrow> size_t \<Rightarrow> size_t result" where
  "c_loop shp indices 0 coeff indx = Inr indx"
| "c_loop shp indices (Suc j) coeff indx =
     (if length shp \<le> Suc j \<or> length indices \<le> j then Inl Undefined
      else c_loop shp indices j (coeff * shp ! Suc j)
             (indx + coeff * shp ! Suc j * indices ! j))"

definition c_continuous_index :: "'a NPArray \<Rightarrow> size_t list \<Rightarrow> size_t result" where
  "c_continuous_index a indices =
     (if dimensions' a = 0 \<or> length indices \<le> dimensions' a - 1 then Inl Undefined
      else c_loop (shape' a) indices (dimensions' a - 1) 1 (indices ! (dimensions' a - 1)))"

text \<open>
  \<^verbatim>\<open>for (size_t i = 0; i < dimensions_-1; i++) { coeff *= shape_[i]; indx += coeff * indices[i+1]; }\<close>
  With \<^verbatim>\<open>dimensions_ == 0\<close> the bound wraps to \<^verbatim>\<open>SIZE_MAX\<close> and the loop leaves the
  vectors.
\<close>

function f_loop :: "size_t list \<Rightarrow> size_t list \<Rightarrow> nat \<Rightarrow> nat \<Rightarrow> size_t \<Rightarrow> size_t \<Rightarrow> size_t result" where
  "f_loop shp indices bound i coeff indx =
     (if i < bound then
        (if length shp \<le> i \<or> length indices \<le> Suc i then Inl Undefined
         else f_loop shp indices bound (Suc i) (coeff * shp ! i)
                (indx + coeff * shp ! i * indices ! Suc i))
      else Inr indx)"
  by pat_completeness auto
termination
  by (relation "measure (\<lambda>(shp, indices, bound, i, coeff, indx). bound - i)") auto

declare f_loop.simps [simp del]

definition fortran_continuous_index :: "'a NPArray \<Rightarrow> size_t list \<Rightarrow> size_t result" where
  "fortran_continuous_index a indices =
     (if dimensions' a = 0 \<or> indices = [] then Inl Undefined
      else f_loop (shape' a) indices (dimensions' a - 1) 0 1 (indices ! 0))"

definition linear_index :: "'a NPArray \<Rightarrow> size_t list \<Rightarrow> size_t result" where
  "linear_index a indices =
     bind (check_indices a indices) (\<lambda>_.
       if c_continuous' a then c_continuous_index a indices
       else fortran_continuous_index a indices)"

text \<open>\<^verbatim>\<open>data_[i]\<close> on a \<^verbatim>\<open>std::vector\<close>: no check; outside the vector it is undefined.\<close>

definition vector_at :: "'a list \<Rightarrow> nat \<Rightarrow> 'a result" where
  "vector_at xs i = (if i < length xs then Inr (xs ! i) else Inl Undefined)"


text \<open>\<^verbatim>\<open>operator[](i)\<close>: \<^verbatim>\<open>return data_[i];\<close>\<close>

definition subscript_op :: "'a NPArray \<Rightarrow> size_t \<Rightarrow> 'a result" where
  "subscript_op a i = vector_at (data' a) (unat i)"

section \<open>Dtype registry\<close>

definition descr_to_DType :: "string \<Rightarrow> DType result" where
  "descr_to_DType dtype =
     (if dtype = ''b1'' then Inr CHAR'
      else if dtype = ''B1'' then Inr UCHAR
      else if dtype = ''i2'' then Inr INT16
      else if dtype = ''i4'' then Inr INT32
      else if dtype = ''i8'' then Inr INT64
      else if dtype = ''u2'' then Inr UINT16
      else if dtype = ''u4'' then Inr UINT32
      else if dtype = ''u8'' then Inr UINT64
      else if dtype = ''f4'' then Inr FLOAT32
      else if dtype = ''f8'' then Inr DOUBLE64
      else if dtype = ''c8'' then Inr COMPLEX64
      else if dtype = ''c16'' then Inr COMPLEX128
      else Inl (Throw (UnknownDataType dtype)))"

fun DType_to_descr :: "DType \<Rightarrow> string" where
  "DType_to_descr CHAR' = ''b1''"
| "DType_to_descr UCHAR = ''B1''"
| "DType_to_descr INT16 = ''i2''"
| "DType_to_descr INT32 = ''i4''"
| "DType_to_descr INT64 = ''i8''"
| "DType_to_descr UINT16 = ''u2''"
| "DType_to_descr UINT32 = ''u4''"
| "DType_to_descr UINT64 = ''u8''"
| "DType_to_descr FLOAT32 = ''f4''"
| "DType_to_descr DOUBLE64 = ''f8''"
| "DType_to_descr COMPLEX64 = ''c8''"
| "DType_to_descr COMPLEX128 = ''c16''"

fun size_of_DType :: "DType \<Rightarrow> nat" where
  "size_of_DType CHAR' = 1"
| "size_of_DType UCHAR = 1"
| "size_of_DType INT16 = 2"
| "size_of_DType INT32 = 4"
| "size_of_DType INT64 = 8"
| "size_of_DType UINT16 = 2"
| "size_of_DType UINT32 = 4"
| "size_of_DType UINT64 = 8"
| "size_of_DType FLOAT32 = 4"
| "size_of_DType DOUBLE64 = 8"
| "size_of_DType COMPLEX64 = 8"
| "size_of_DType COMPLEX128 = 16"

section \<open>Endianness utility\<close>

text \<open>
  The host decides what \<^verbatim>\<open>system_is_little_endian()\<close> returns and whether plain
  \<^verbatim>\<open>char\<close> is signed.
\<close>

record host =
  little_endian :: bool
  char_signed :: bool

definition system_is_little_endian :: "host \<Rightarrow> bool" where
  "system_is_little_endian h = little_endian h"

text \<open>
  The fixed-width routines get a pointer into a buffer: the buffer and the offset
  \<open>p\<close> of the pointer in it. They copy the bytes to \<^verbatim>\<open>temp\<close> and write them back one
  by one. With fewer bytes behind the pointer than the routine touches, the access is
  outside the buffer.
\<close>

definition swap_two_bytes :: "nat \<Rightarrow> string \<Rightarrow> string result" where
  "swap_two_bytes p bytes =
     (if length bytes < p + 2 then Inl Undefined
      else let temp = take 2 (drop p bytes)
           in Inr (bytes[p := temp ! 1, p + 1 := temp ! 0]))"

definition swap_four_bytes :: "nat \<Rightarrow> string \<Rightarrow> string result" where
  "swap_four_bytes p bytes =
     (if length bytes < p + 4 then Inl Undefined
      else let temp = take 4 (drop p bytes)
           in Inr (bytes[p := temp ! 3, p + 1 := temp ! 2, p + 2 := temp ! 1,
                         p + 3 := temp ! 0]))"

definition swap_eight_bytes :: "nat \<Rightarrow> string \<Rightarrow> string result" where
  "swap_eight_bytes p bytes =
     (if length bytes < p + 8 then Inl Undefined
      else let temp = take 8 (drop p bytes)
           in Inr (bytes[p := temp ! 7, p + 1 := temp ! 6, p + 2 := temp ! 5,
                         p + 3 := temp ! 4, p + 4 := temp ! 3, p + 5 := temp ! 2,
                         p + 6 := temp ! 1, p + 7 := temp ! 0]))"

definition swap_sixteen_bytes :: "nat \<Rightarrow> string \<Rightarrow> string result" where
  "swap_sixteen_bytes p bytes =
     (if length bytes < p + 16 then Inl Undefined
      else let temp = take 16 (drop p bytes)
           in Inr (bytes[p := temp ! 15, p + 1 := temp ! 14, p + 2 := temp ! 13,
                         p + 3 := temp ! 12, p + 4 := temp ! 11, p + 5 := temp ! 10,
                         p + 6 := temp ! 9, p + 7 := temp ! 8, p + 8 := temp ! 7,
                         p + 9 := temp ! 6, p + 10 := temp ! 5, p + 11 := temp ! 4,
                         p + 12 := temp ! 3, p + 13 := temp ! 2, p + 14 := temp ! 1,
                         p + 15 := temp ! 0]))"

text \<open>
  \<^verbatim>\<open>for (uint64_t i = 0; i < number_of_bytes; i += element_size)\<close>. A recursive call is
  made only for the widths 1, 2, 4, 8 and 16; there \<^verbatim>\<open>number_of_bytes\<close> is a multiple of
  the width also after the product has wrapped, so \<^verbatim>\<open>i += element_size\<close> never wraps.
\<close>

function swap_bytes_loop :: "string \<Rightarrow> nat \<Rightarrow> nat \<Rightarrow> nat \<Rightarrow> string result" where
  "swap_bytes_loop data number_of_bytes element_size i =
     (if i < number_of_bytes then
        (if element_size = 1 then
           swap_bytes_loop data number_of_bytes element_size (i + element_size)
         else if element_size = 2 then
           (case swap_two_bytes i data of Inl e \<Rightarrow> Inl e
            | Inr d \<Rightarrow> swap_bytes_loop d number_of_bytes element_size (i + element_size))
         else if element_size = 4 then
           (case swap_four_bytes i data of Inl e \<Rightarrow> Inl e
            | Inr d \<Rightarrow> swap_bytes_loop d number_of_bytes element_size (i + element_size))
         else if element_size = 8 then
           (case swap_eight_bytes i data of Inl e \<Rightarrow> Inl e
            | Inr d \<Rightarrow> swap_bytes_loop d number_of_bytes element_size (i + element_size))
         else if element_size = 16 then
           (case swap_sixteen_bytes i data of Inl e \<Rightarrow> Inl e
            | Inr d \<Rightarrow> swap_bytes_loop d number_of_bytes element_size (i + element_size))
         else Inl (Throw (CannotSwapBytes element_size)))
      else Inr data)"
  by pat_completeness auto
termination
  by (relation "measure (\<lambda>(data, number_of_bytes, element_size, i). number_of_bytes - i)") auto

declare swap_bytes_loop.simps [simp del]

definition swap_bytes :: "string \<Rightarrow> nat \<Rightarrow> nat \<Rightarrow> string result" where
  "swap_bytes data n_elements element_size =
     swap_bytes_loop data ((n_elements * element_size) mod 2 ^ 64) element_size 0"

text \<open>
  The object representation of an unsigned integer of \<open>w\<close> bytes on the host, and the
  value of such a representation.
\<close>

fun le_bytes :: "nat \<Rightarrow> nat \<Rightarrow> string" where
  "le_bytes 0 v = []"
| "le_bytes (Suc w) v = char_of (v mod 256) # le_bytes w (v div 256)"

fun le_value :: "string \<Rightarrow> nat" where
  "le_value [] = 0"
| "le_value (c # cs) = of_char c + 256 * le_value cs"

definition mem_of_uint :: "host \<Rightarrow> nat \<Rightarrow> nat \<Rightarrow> string" where
  "mem_of_uint h w v = (if little_endian h then le_bytes w v else rev (le_bytes w v))"

definition uint_of_mem :: "host \<Rightarrow> string \<Rightarrow> nat" where
  "uint_of_mem h mem = (if little_endian h then le_value mem else le_value (rev mem))"

section \<open>Format codec: strings\<close>

text \<open>\<^verbatim>\<open>std::to_string\<close> of an unsigned integer: its decimal digits.\<close>

definition digit :: "nat \<Rightarrow> char" where
  "digit d = ''0123456789'' ! d"

fun to_string :: "nat \<Rightarrow> string" where
  "to_string n = (if n < 10 then [digit n] else to_string (n div 10) @ [digit (n mod 10)])"

declare to_string.simps [simp del]

text \<open>
  \<^verbatim>\<open>std::stoi\<close>: leading white space is skipped, a sign is accepted, the longest run
  of decimal digits is read. No digit: \<^verbatim>\<open>std::invalid_argument\<close>. A value outside
  \<^verbatim>\<open>int\<close>: \<^verbatim>\<open>std::out_of_range\<close>.
\<close>

definition isspace :: "char \<Rightarrow> bool" where
  "isspace c = (c \<in> set [CHR 0x20, CHR 0x09, CHR 0x0A, CHR 0x0B, CHR 0x0C, CHR 0x0D])"

definition isdigit :: "char \<Rightarrow> bool" where
  "isdigit c = (48 \<le> (of_char c :: nat) \<and> (of_char c :: nat) \<le> 57)"

fun digits_value :: "nat \<Rightarrow> string \<Rightarrow> nat" where
  "digits_value acc [] = acc"
| "digits_value acc (c # cs) = digits_value (10 * acc + (of_char c - 48)) cs"

definition stoi :: "string \<Rightarrow> int result" where
  "stoi str =
     (let s1 = dropWhile isspace str;
          negative = (s1 \<noteq> [] \<and> hd s1 = CHR ''-'');
          s2 = (if s1 \<noteq> [] \<and> (hd s1 = CHR ''-'' \<or> hd s1 = CHR ''+'') then tl s1 else s1);
          ds = takeWhile isdigit s2;
          v = (if negative then - int (digits_value 0 ds) else int (digits_value 0 ds))
      in if ds = [] then Inl (Throw StoiInvalidArgument)
         else if v < - (2 ^ 31) \<or> 2 ^ 31 - 1 < v then Inl (Throw StoiOutOfRange)
         else Inr v)"

text \<open>
  \<^verbatim>\<open>std::string::find\<close>: the position of the first occurrence, or \<^verbatim>\<open>npos\<close>, the
  largest \<^verbatim>\<open>size_t\<close>. Adding to a position wraps.
\<close>

definition npos :: nat where
  "npos = 2 ^ 64 - 1"

fun find_from :: "string \<Rightarrow> string \<Rightarrow> nat \<Rightarrow> nat" where
  "find_from pat [] i = (if pat = [] then i else npos)"
| "find_from pat (c # cs) i =
     (if take (length pat) (c # cs) = pat then i else find_from pat cs (Suc i))"

definition find :: "string \<Rightarrow> string \<Rightarrow> nat" where
  "find header pat = find_from pat header 0"

definition add_size_t :: "nat \<Rightarrow> nat \<Rightarrow> nat" where
  "add_size_t a b = (a + b) mod 2 ^ 64"

text \<open>
  \<^verbatim>\<open>header[k]\<close> on a \<^verbatim>\<open>std::string\<close>: the character; at \<^verbatim>\<open>k == size()\<close> the
  terminating zero; beyond that the access is undefined.
\<close>

definition str_at :: "string \<Rightarrow> nat \<Rightarrow> char result" where
  "str_at str k =
     (if k < length str then Inr (str ! k)
      else if k = length str then Inr (CHR 0x00)
      else Inl Undefined)"

section \<open>Format codec: encode\<close>

text \<open>The header text of \<^verbatim>\<open>write_npy\<close> before padding.\<close>

definition shape_text :: "size_t list \<Rightarrow> string" where
  "shape_text shp = concat (map (\<lambda>e. to_string (unat e) @ '','') shp)"

definition header_text :: "host \<Rightarrow> size_t list \<Rightarrow> DType \<Rightarrow> bool \<Rightarrow> string" where
  "header_text h shp dtype c_contiguous =
     ''{'descr': '' @ [CHR 0x27]
     @ (if system_is_little_endian h then ''<'' else ''>'')
     @ DType_to_descr dtype @ [CHR 0x27] @ '', ''
     @ [CHR 0x27] @ ''fortran_order': ''
     @ (if c_contiguous then ''False, '' else ''True, '')
     @ [CHR 0x27] @ ''shape': (''
     @ shape_text shp
     @ ''), }''"

text \<open>
  \<^verbatim>\<open>beginning_length\<close>, \<^verbatim>\<open>padding_needed\<close> and the version, from the length of the
  unpadded header. The statement \<^verbatim>\<open>beginning_length += 2;\<close> of the version-2 branch
  changes a variable that is not read afterwards; \<^verbatim>\<open>padding_needed\<close> keeps the value
  computed before the branch.
\<close>

definition padding_needed :: "nat \<Rightarrow> nat" where
  "padding_needed header_size = 64 - ((6 + 2 + 2 + header_size) mod 64)"

definition major_version :: "nat \<Rightarrow> nat" where
  "major_version header_size =
     (if (6 + 2 + 2 + header_size) + padding_needed header_size > 65535 then 2 else 1)"

definition padded_header :: "string \<Rightarrow> string" where
  "padded_header header =
     header @ replicate (padding_needed (length header) - 1) (CHR 0x20) @ [CHR 0x0A]"

definition magic :: string where
  "magic = [CHR 0x93, CHR ''N'', CHR ''U'', CHR ''M'', CHR ''P'', CHR ''Y'']"

text \<open>
  The length field: the object representation of \<^verbatim>\<open>len\<close>, swapped on a big-endian
  host, written byte by byte.
\<close>

definition length_field :: "host \<Rightarrow> nat \<Rightarrow> nat \<Rightarrow> string result" where
  "length_field h major header_size =
     (if major = 1 then
        (let len = mem_of_uint h 2 (header_size mod 2 ^ 16)
         in if \<not> system_is_little_endian h then swap_two_bytes 0 len else Inr len)
      else
        (let len = mem_of_uint h 4 (header_size mod 2 ^ 32)
         in if \<not> system_is_little_endian h then swap_four_bytes 0 len else Inr len))"

text \<open>
  Everything \<^verbatim>\<open>write_npy\<close> puts in the file before the payload. \<^verbatim>\<open>file << header.c_str()\<close>
  writes the header up to its first zero byte.
\<close>

definition preamble :: "host \<Rightarrow> size_t list \<Rightarrow> DType \<Rightarrow> bool \<Rightarrow> string result" where
  "preamble h shp dtype c_contiguous =
     (let header0 = header_text h shp dtype c_contiguous;
          major = major_version (length header0);
          header = padded_header header0
      in bind (length_field h major (length header)) (\<lambda>len.
           Inr (magic @ [char_of major, CHR 0x00] @ len
                @ takeWhile (\<lambda>c. c \<noteq> CHR 0x00) header)))"

text \<open>
  \<^verbatim>\<open>write_npy\<close>: the bytes of the file. \<open>data_ptr\<close> is the buffer behind the pointer;
  reading \<^verbatim>\<open>n_bytes\<close> from a shorter buffer is outside it. Failures of the stream are not
  modelled.
\<close>

definition write_npy :: "host \<Rightarrow> string \<Rightarrow> size_t list \<Rightarrow> DType \<Rightarrow> bool \<Rightarrow> string result" where
  "write_npy h data_ptr shp dtype c_contiguous =
     bind (number_of_elements shp) (\<lambda>n_elements.
       bind (preamble h shp dtype c_contiguous) (\<lambda>pre.
         let n_bytes = unat (n_elements * of_nat (size_of_DType dtype))
         in if length data_ptr < n_bytes then Inl Undefined
            else Inr (pre @ take n_bytes data_ptr)))"

section \<open>Format codec: decode\<close>

text \<open>
  \<^verbatim>\<open>file.read(buf, n)\<close>: the next \<open>n\<close> bytes and the rest of the file. The source
  never tests the stream: after a short read the buffer is left partly unwritten and is
  read all the same, which the model reports as \<open>Undefined\<close>.
\<close>

definition file_read :: "nat \<Rightarrow> string \<Rightarrow> (string \<times> string) result" where
  "file_read n file =
     (if length file < n then Inl Undefined else Inr (take n file, drop n file))"

text \<open>A plain \<^verbatim>\<open>char\<close> promoted to \<^verbatim>\<open>int\<close>, as in \<^verbatim>\<open>major_verison >= 0x02\<close>.\<close>

definition char_to_int :: "host \<Rightarrow> char \<Rightarrow> int" where
  "char_to_int h c =
     (if char_signed h \<and> 128 \<le> (of_char c :: int) then of_char c - 256 else of_char c)"

text \<open>
  The header-length field. \<^verbatim>\<open>length_of_header\<close> starts at 0 and is set in two
  branches: \<^verbatim>\<open>major_verison == 0x01\<close> and \<^verbatim>\<open>major_verison >= 0x02\<close>. On a host that
  is not little-endian the source calls \<^verbatim>\<open>swap_bytes((char*)&length_temp, 2, 1)\<close>, and
  \<^verbatim>\<open>swap_bytes((char*)&length_temp, 4, 1)\<close>: \<^verbatim>\<open>n_elements\<close> is 2 (or 4) and
  \<^verbatim>\<open>element_size\<close> is 1.
\<close>

definition read_header_length :: "host \<Rightarrow> char \<Rightarrow> string \<Rightarrow> (nat \<times> string) result" where
  "read_header_length h major_verison file =
     (if major_verison = CHR 0x01 then
        bind (file_read 2 file) (\<lambda>(length_temp, file').
          bind (if \<not> system_is_little_endian h then swap_bytes length_temp 2 1
                else Inr length_temp) (\<lambda>length_temp.
            Inr (uint_of_mem h length_temp, file')))
      else if 2 \<le> char_to_int h major_verison then
        bind (file_read 4 file) (\<lambda>(length_temp, file').
          bind (if \<not> system_is_little_endian h then swap_bytes length_temp 4 1
                else Inr length_temp) (\<lambda>length_temp.
            Inr (uint_of_mem h length_temp, file')))
      else Inr (0, file))"

text \<open>
  \<^verbatim>\<open>while (true) { if (header[loc1 + i] != ' ') { if (header[loc1 + i] == ',') break;
  else f_order_string += header[loc1 + i]; } i++; }\<close>
  The loop ends at a comma or leaves the string.
\<close>

function f_order_loop :: "string \<Rightarrow> nat \<Rightarrow> nat \<Rightarrow> string \<Rightarrow> string result" where
  "f_order_loop header loc1 i f_order_string =
     (if length header < loc1 + i then Inl Undefined
      else let c = (if loc1 + i < length header then header ! (loc1 + i) else CHR 0x00)
           in if c \<noteq> CHR '' '' then
                (if c = CHR '','' then Inr f_order_string
                 else f_order_loop header loc1 (i + 1) (f_order_string @ [c]))
              else f_order_loop header loc1 (i + 1) f_order_string)"
  by pat_completeness auto
termination
  by (relation "measure (\<lambda>(header, loc1, i, acc). Suc (length header) - (loc1 + i))") auto

declare f_order_loop.simps [simp del]

definition parse_fortran_order :: "string \<Rightarrow> bool result" where
  "parse_fortran_order header =
     (let loc1 = add_size_t (find header ([CHR 0x27] @ ''fortran_order': '')) 17
      in bind (f_order_loop header loc1 0 []) (\<lambda>f_order_string.
           if f_order_string = ''False'' then Inr True else Inr False))"

text \<open>
  \<^verbatim>\<open>while (true) { if (header[loc1 + i] != ' ') { if (header[loc1 + i] != '\'')
  descr_string += header[loc1 + i]; else break; } i++; }\<close>
\<close>

function descr_loop :: "string \<Rightarrow> nat \<Rightarrow> nat \<Rightarrow> string \<Rightarrow> string result" where
  "descr_loop header loc1 i descr_string =
     (if length header < loc1 + i then Inl Undefined
      else let c = (if loc1 + i < length header then header ! (loc1 + i) else CHR 0x00)
           in if c \<noteq> CHR '' '' then
                (if c \<noteq> CHR 0x27 then descr_loop header loc1 (i + 1) (descr_string @ [c])
                 else Inr descr_string)
              else descr_loop header loc1 (i + 1) descr_string)"
  by pat_completeness auto
termination
  by (relation "measure (\<lambda>(header, loc1, i, acc). Suc (length header) - (loc1 + i))") auto

declare descr_loop.simps [simp del]

definition parse_descr :: "string \<Rightarrow> (bool \<times> DType) result" where
  "parse_descr header =
     (let loc1 = add_size_t (find header ([CHR 0x27] @ ''descr': '')) 9
      in bind (str_at header (loc1 + 1)) (\<lambda>marker.
           let data_is_little_endian = (marker \<noteq> CHR ''>'')
           in bind (descr_loop header loc1 2 []) (\<lambda>descr_string.
                bind (descr_to_DType descr_string) (\<lambda>dtype.
                  Inr (data_is_little_endian, dtype)))))"

text \<open>
  The shape list between the first \<^verbatim>\<open>(\<close> and the first \<^verbatim>\<open>)\<close>. \<^verbatim>\<open>std::stoi\<close>
  returns an \<^verbatim>\<open>int\<close>, which \<^verbatim>\<open>push_back\<close> converts to \<^verbatim>\<open>size_t\<close>.
\<close>

function shape_loop :: "string \<Rightarrow> nat \<Rightarrow> nat \<Rightarrow> string \<Rightarrow> size_t list
    \<Rightarrow> (string \<times> size_t list) result" where
  "shape_loop header loc2 i temp shp =
     (if i < loc2 then
        (if length header < i then Inl Undefined
         else let c = (if i < length header then header ! i else CHR 0x00)
              in if c \<noteq> CHR '','' then shape_loop header loc2 (i + 1) (temp @ [c]) shp
                 else if length temp > 0 then
                   (case stoi temp of
                      Inl e \<Rightarrow> Inl e
                    | Inr v \<Rightarrow> shape_loop header loc2 (i + 1) [] (shp @ [word_of_int v]))
                 else shape_loop header loc2 (i + 1) temp shp)
      else Inr (temp, shp))"
  by pat_completeness auto
termination
  by (relation "measure (\<lambda>(header, loc2, i, temp, shp). loc2 - i)") auto

declare shape_loop.simps [simp del]

definition parse_shape :: "string \<Rightarrow> size_t list result" where
  "parse_shape header =
     (let loc1 = find header ''('';
          loc2 = find header '')'';
          loc1 = add_size_t loc1 1
      in if loc1 = loc2 then Inr [1]
         else bind (shape_loop header loc2 loc1 [] []) (\<lambda>(temp, shp).
                if length temp > 0 then
                  bind (stoi temp) (\<lambda>v. Inr (shp @ [word_of_int v]))
                else Inr shp))"

text \<open>
  \<^verbatim>\<open>std::string header(header_char)\<close>: the characters from the start of the buffer up to
  the first zero byte. The buffer is \<^verbatim>\<open>new char[length_of_header]\<close>, filled from the file,
  with no terminator of its own. When it holds no zero byte the constructor reads on
  behind it, which the language leaves undefined; what an execution then finds is
  whatever lies in memory there. Those bytes are the parameter \<open>beyond\<close>: the string runs
  through them up to their first zero byte, and without one the read never ends inside
  the memory given.
\<close>

definition string_of_buffer :: "string \<Rightarrow> string \<Rightarrow> string result" where
  "string_of_buffer buffer beyond =
     (if CHR 0x00 \<in> set buffer then Inr (takeWhile (\<lambda>c. c \<noteq> CHR 0x00) buffer)
      else if CHR 0x00 \<in> set beyond
           then Inr (buffer @ takeWhile (\<lambda>c. c \<noteq> CHR 0x00) beyond)
           else Inl Undefined)"

text \<open>
  \<^verbatim>\<open>load_npy\<close>, in its three stages: the bytes up to the end of the header text, the
  three header fields, the payload. It returns the payload bytes, the shape, the element
  kind and the layout flag.
\<close>

definition read_header :: "host \<Rightarrow> string \<Rightarrow> string \<Rightarrow> (string \<times> string) result" where
  "read_header h beyond file =
     bind (file_read 6 file) (\<lambda>(magic_string, file).
       if magic_string \<noteq> magic then Inl (Throw InvalidNpyFile)
       else bind (file_read 1 file) (\<lambda>(major_verison, file).
         bind (file_read 1 file) (\<lambda>(minor_version, file).
           bind (read_header_length h (hd major_verison) file) (\<lambda>(length_of_header, file).
             bind (file_read length_of_header file) (\<lambda>(header_char, file).
               bind (string_of_buffer header_char beyond) (\<lambda>header.
                 Inr (header, file)))))))"

definition read_data :: "host \<Rightarrow> bool \<Rightarrow> DType \<Rightarrow> size_t list \<Rightarrow> string \<Rightarrow> string result" where
  "read_data h data_is_little_endian dtype shp file =
     (let element_size = size_of_DType dtype
      in bind (number_of_elements shp) (\<lambda>n_elements.
           let n_bytes_to_read = unat (n_elements * of_nat element_size)
           in bind (file_read n_bytes_to_read file) (\<lambda>(data, file).
                if system_is_little_endian h \<noteq> data_is_little_endian
                then swap_bytes data (unat n_elements) element_size
                else Inr data)))"

definition load_npy :: "host \<Rightarrow> string \<Rightarrow> string
    \<Rightarrow> (string \<times> size_t list \<times> DType \<times> bool) result" where
  "load_npy h beyond file =
     bind (read_header h beyond file) (\<lambda>(header, file).
       bind (parse_fortran_order header) (\<lambda>c_contiguous.
         bind (parse_descr header) (\<lambda>(data_is_little_endian, dtype).
           bind (parse_shape header) (\<lambda>shp.
             bind (read_data h data_is_little_endian dtype shp file) (\<lambda>data.
               Inr (data, shp, dtype, c_contiguous))))))"

section \<open>Persistence of the array container\<close>

text \<open>
  The element type \<^verbatim>\<open>T\<close> of \<^verbatim>\<open>NPArray<T>\<close> is, for \<^verbatim>\<open>load\<close> and \<^verbatim>\<open>save\<close>, one of the
  twelve types the \<^verbatim>\<open>typeid\<close> chain knows (\<open>Some\<close> of its \<open>DType\<close>) or any other type
  (\<open>None\<close>). An element is its object representation, \<^verbatim>\<open>sizeof(T)\<close> bytes;
  \<^verbatim>\<open>reinterpret_cast\<close> reads a buffer as consecutive elements and back.
\<close>

definition expected_DType :: "DType option \<Rightarrow> DType result" where
  "expected_DType T = (case T of Some d \<Rightarrow> Inr d | None \<Rightarrow> Inl (Throw DatatypeNotSupported))"

definition elements_of :: "nat \<Rightarrow> nat \<Rightarrow> string \<Rightarrow> string list result" where
  "elements_of w ne bytes =
     (if length bytes < ne * w then Inl Undefined
      else Inr (map (\<lambda>k. take w (drop (k * w) bytes)) [0..<ne]))"

definition load :: "DType option \<Rightarrow> host \<Rightarrow> string \<Rightarrow> string \<Rightarrow> string NPArray result" where
  "load T h beyond file =
     bind (expected_DType T) (\<lambda>expected_dtype.
       bind (load_npy h beyond file) (\<lambda>(data_ptr, data_shape, data_dtype, data_c_continuous).
         if expected_dtype \<noteq> data_dtype then Inl (Throw DTypeMismatch)
         else if length data_shape < 1 then Inl (Throw ShapeEmpty)
         else bind (number_of_elements data_shape) (\<lambda>ne.
           bind (elements_of (size_of_DType expected_dtype) (unat ne) data_ptr) (\<lambda>data_vector.
             bind (NPArray_data data_vector data_shape True) (\<lambda>return_object.
               Inr (return_object\<lparr>c_continuous' := data_c_continuous\<rparr>))))))"

definition save :: "DType option \<Rightarrow> host \<Rightarrow> string NPArray \<Rightarrow> string result" where
  "save T h a =
     bind (expected_DType T) (\<lambda>dtype.
       write_npy h (concat (data' a)) (shape' a) dtype (c_continuous' a))"

section \<open>Notions of the specification\<close>

text \<open>
  An index tuple is valid for an array when it has one index per axis and every index is
  below the extent of its axis.
\<close>

definition valid_indices :: "'a NPArray \<Rightarrow> size_t list \<Rightarrow> bool" where
  "valid_indices a indices =
     (length indices = length (shape' a)
      \<and> (\<forall>i < length (shape' a). indices ! i < shape' a ! i))"

text \<open>
  The accumulation formulas as the specification words them. Row-major: start with
  \<open>idx = indices[R-1]\<close> and \<open>coeff = 1\<close>; for \<open>i\<close> from \<open>R-1\<close> down to \<open>1\<close>:
  \<open>coeff *= shape[i]; idx += coeff * indices[i-1]\<close>. Column-major: start with
  \<open>idx = indices[0]\<close>; for \<open>i\<close> from \<open>0\<close> to \<open>R-2\<close>:
  \<open>coeff *= shape[i]; idx += coeff * indices[i+1]\<close>.
\<close>

definition row_major_formula :: "size_t list \<Rightarrow> size_t list \<Rightarrow> size_t" where
  "row_major_formula shp indices =
     snd (fold (\<lambda>i (coeff, idx). (coeff * shp ! i, idx + coeff * shp ! i * indices ! (i - 1)))
            (rev [1..<length shp]) (1, indices ! (length shp - 1)))"

definition column_major_formula :: "size_t list \<Rightarrow> size_t list \<Rightarrow> size_t" where
  "column_major_formula shp indices =
     snd (fold (\<lambda>i (coeff, idx). (coeff * shp ! i, idx + coeff * shp ! i * indices ! (i + 1)))
            [0..<length shp - 1] (1, indices ! 0))"

text \<open>
  The product of the extents as a natural number, and the two readings of the
  invariant: with the product itself, and with the product as \<^verbatim>\<open>size_t\<close> arithmetic
  computes it.
\<close>

definition shape_product :: "size_t list \<Rightarrow> nat" where
  "shape_product shp = prod_list (map unat shp)"

definition invariant_exact :: "'a NPArray \<Rightarrow> bool" where
  "invariant_exact a = (1 \<le> length (shape a) \<and> size_of a = shape_product (shape a))"

definition invariant_wrapped :: "'a NPArray \<Rightarrow> bool" where
  "invariant_wrapped a =
     (1 \<le> length (shape a) \<and> dimensions' a = length (shape a)
      \<and> size_of a = shape_product (shape a) mod 2 ^ 64)"

text \<open>Each element of \<open>w\<close> bytes reversed, for \<open>n\<close> elements from the start of a buffer.\<close>

fun reverse_elements :: "nat \<Rightarrow> nat \<Rightarrow> 'a list \<Rightarrow> 'a list" where
  "reverse_elements w 0 xs = xs"
| "reverse_elements w (Suc n) xs = rev (take w xs) @ reverse_elements w n (drop w xs)"

section \<open>Layout engine: validation and linearisation\<close>

lemma check_indices_loop_eq:
  "length indices = dims \<Longrightarrow> length shp = dims \<Longrightarrow>
   check_indices_loop shp dims indices i =
     (if \<exists>k. i \<le> k \<and> k < dims \<and> shp ! k \<le> indices ! k
      then Inl (Throw IndexOutOfRange) else Inr ())"
proof (induction shp dims indices i rule: check_indices_loop.induct)
  case (1 shp dims indices i)
  show ?case
  proof (cases "i < dims")
    case False
    then show ?thesis by (simp add: check_indices_loop.simps)
  next
    case True
    show ?thesis
    proof (cases "shp ! i \<le> indices ! i")
      case True
      with \<open>i < dims\<close> 1(2,3) show ?thesis
        by (subst check_indices_loop.simps) auto
    next
      case False
      have eq: "(\<exists>k\<ge>i. k < dims \<and> shp ! k \<le> indices ! k)
              = (\<exists>k\<ge>Suc i. k < dims \<and> shp ! k \<le> indices ! k)"
        using False by (metis Suc_leI le_neq_implies_less Suc_leD)
      from False True 1 show ?thesis
        by (subst check_indices_loop.simps) (simp add: eq)
    qed
  qed
qed

lemma check_indices_valid:
  "dimensions' a = length (shape' a) \<Longrightarrow> valid_indices a indices \<Longrightarrow>
   check_indices a indices = Inr ()"
  by (auto simp: check_indices_def valid_indices_def check_indices_loop_eq not_le [symmetric])



lemma c_loop_fold:
  "j < length shp \<Longrightarrow> j \<le> length indices \<Longrightarrow>
   c_loop shp indices j coeff indx =
     Inr (snd (fold (\<lambda>i (coeff, idx). (coeff * shp ! i, idx + coeff * shp ! i * indices ! (i - 1)))
            (rev [1..<Suc j]) (coeff, indx)))"
  by (induction j arbitrary: coeff indx) simp_all

lemma f_loop_fold:
  "bound < length shp \<Longrightarrow> bound < length indices \<Longrightarrow>
   f_loop shp indices bound i coeff indx =
     Inr (snd (fold (\<lambda>i (coeff, idx). (coeff * shp ! i, idx + coeff * shp ! i * indices ! (i + 1)))
            [i..<bound] (coeff, indx)))"
proof (induction shp indices bound i coeff indx rule: f_loop.induct)
  case (1 shp indices bound i coeff indx)
  show ?case
  proof (cases "i < bound")
    case True
    with 1 show ?thesis
      by (subst f_loop.simps) (simp add: upt_conv_Cons)
  next
    case False
    then show ?thesis by (simp add: f_loop.simps)
  qed
qed

lemma c_continuous_index_formula:
  "dimensions' a = length (shape' a) \<Longrightarrow> shape' a \<noteq> [] \<Longrightarrow>
   length indices = length (shape' a) \<Longrightarrow>
   c_continuous_index a indices = Inr (row_major_formula (shape' a) indices)"
  by (cases "shape' a")
     (simp_all add: c_continuous_index_def row_major_formula_def c_loop_fold del: upt_Suc)

lemma fortran_continuous_index_formula:
  "dimensions' a = length (shape' a) \<Longrightarrow> shape' a \<noteq> [] \<Longrightarrow>
   length indices = length (shape' a) \<Longrightarrow>
   fortran_continuous_index a indices = Inr (column_major_formula (shape' a) indices)"
  by (cases "shape' a"; cases indices)
     (simp_all add: fortran_continuous_index_def column_major_formula_def f_loop_fold)

text \<open>
  C2, as the code has it. For an array with a non-empty shape and a valid index tuple,
  \<open>linear_index\<close> returns the value of the row-major accumulation formula when the
  array is row-major and of the column-major one otherwise. For shape \<open>[2,3]\<close> the index
  \<open>(1,2)\<close> maps to 5 under both layouts; the column-major value is \<open>1 + 2*2 = 5\<close>.
\<close>

theorem linear_index_formulas:
  "(dimensions' a = length (shape' a) \<and> shape' a \<noteq> [] \<and> valid_indices a indices \<longrightarrow>
      linear_index a indices =
        Inr (if c_continuous' a then row_major_formula (shape' a) indices
             else column_major_formula (shape' a) indices))
   \<and> linear_index \<lparr>data' = d, shape' = [2, 3], c_continuous' = True, dimensions' = 2\<rparr> [1, 2]
       = Inr 5
   \<and> linear_index \<lparr>data' = d, shape' = [2, 3], c_continuous' = False, dimensions' = 2\<rparr> [1, 2]
       = Inr 5"
proof (intro conjI impI)
  assume h: "dimensions' a = length (shape' a) \<and> shape' a \<noteq> [] \<and> valid_indices a indices"
  then have len: "length indices = length (shape' a)" by (simp add: valid_indices_def)
  from h show "linear_index a indices =
        Inr (if c_continuous' a then row_major_formula (shape' a) indices
             else column_major_formula (shape' a) indices)"
    by (simp add: linear_index_def bind_def check_indices_valid
        c_continuous_index_formula fortran_continuous_index_formula len)
next
  show "linear_index \<lparr>data' = d, shape' = [2, 3], c_continuous' = True, dimensions' = 2\<rparr> [1, 2]
       = Inr 5"
    by (simp add: linear_index_def bind_def check_indices_def check_indices_loop.simps
        c_continuous_index_def word_le_nat_alt)
next
  show "linear_index \<lparr>data' = d, shape' = [2, 3], c_continuous' = False, dimensions' = 2\<rparr> [1, 2]
       = Inr 5"
    by (simp add: linear_index_def bind_def check_indices_def check_indices_loop.simps
        fortran_continuous_index_def f_loop.simps word_le_nat_alt)
qed

theorem linear_index_formulas_witness:
  "linear_index \<lparr>data' = [10, 11, 12, 13, 14, 15 :: int], shape' = [2, 3],
       c_continuous' = True, dimensions' = 2\<rparr> [1, 2]
     = Inr (row_major_formula [2, 3] [1, 2])
   \<and> row_major_formula [2, 3] [1, 2] = 5 \<and> column_major_formula [2, 3] [1, 2] = 5"
proof -
  let ?a = "\<lparr>data' = [10, 11, 12, 13, 14, 15 :: int], shape' = [2, 3],
       c_continuous' = True, dimensions' = 2\<rparr>"
  have v: "valid_indices ?a [1, 2]"
    by (simp add: valid_indices_def All_less_Suc)
  have "dimensions' ?a = length (shape' ?a) \<and> shape' ?a \<noteq> [] \<and> valid_indices ?a [1, 2]"
    using v by simp
  with linear_index_formulas [of ?a "[1, 2]" "[] :: int list"]
  have "linear_index ?a [1, 2] = Inr (row_major_formula [2, 3] [1, 2])" by simp
  moreover have "row_major_formula [2, 3] [1, 2] = 5"
    by (simp add: row_major_formula_def upt_rec)
  moreover have "column_major_formula [2, 3] [1, 2] = 5"
    by (simp add: column_major_formula_def upt_rec)
  ultimately show ?thesis by simp
qed

text \<open>
  C2, as the claim states it, fails in its last sentence: under the column-major layout the
  code maps index \<open>(1,2)\<close> of shape \<open>[2,3]\<close> to 5, not to 4.
\<close>

theorem linear_index_column_major_counterexample:
  "linear_index \<lparr>data' = [10, 11, 12, 13, 14, 15 :: int], shape' = [2, 3],
       c_continuous' = False, dimensions' = 2\<rparr> [1, 2] \<noteq> Inr 4"
  by (simp add: linear_index_def bind_def check_indices_def check_indices_loop.simps
      fortran_continuous_index_def f_loop.simps word_le_nat_alt)

subsection \<open>The flat index stays inside the buffer\<close>
















text \<open>
  C9. \<open>operator[]\<close> throws for no \<open>i\<close>: inside the buffer it designates the element, and
  at or beyond \<open>size()\<close> the access is made all the same, outside the buffer, where tuple
  indexing with an index beyond its extent throws.
\<close>

theorem subscript_unguarded:
  "(\<forall>x. subscript_op a i \<noteq> Inl (Throw x))
   \<and> (unat i < size_of a \<longrightarrow> subscript_op a i = Inr (data' a ! unat i))
   \<and> (size_of a \<le> unat i \<longrightarrow> subscript_op a i = Inl Undefined)"
  by (simp add: subscript_op_def vector_at_def size_of_def)

theorem subscript_unguarded_witness:
  "subscript_op \<lparr>data' = [10, 11, 12, 13, 14, 15 :: int], shape' = [2, 3],
       c_continuous' = True, dimensions' = 2\<rparr> 5 = Inr 15
   \<and> subscript_op \<lparr>data' = [10, 11, 12, 13, 14, 15 :: int], shape' = [2, 3],
       c_continuous' = True, dimensions' = 2\<rparr> 6 = Inl Undefined"
proof -
  let ?a = "\<lparr>data' = [10, 11, 12, 13, 14, 15 :: int], shape' = [2, 3],
       c_continuous' = True, dimensions' = 2\<rparr>"
  show ?thesis
    using subscript_unguarded [of ?a 5] subscript_unguarded [of ?a 6]
    by (simp add: size_of_def)
qed

section \<open>Array container: element counts, reshape\<close>

lemma ne_loop_product:
  "unat (ne_loop ne ss) = (unat ne * shape_product ss) mod 2 ^ 64"
proof (induction ss arbitrary: ne)
  case Nil
  have "unat ne < 2 ^ 64" using unsigned_less [of ne] by simp
  then show ?case by (simp add: shape_product_def)
next
  case (Cons s ss)
  have "unat (ne_loop (ne * s) ss) = (unat (ne * s) * shape_product ss) mod 2 ^ 64"
    by (rule Cons.IH)
  also have "unat (ne * s) = (unat ne * unat s) mod 2 ^ 64"
    by (simp add: unat_word_ariths)
  also have "((unat ne * unat s) mod 2 ^ 64 * shape_product ss) mod 2 ^ 64
           = (unat ne * (unat s * shape_product ss)) mod 2 ^ 64"
    by (simp add: mod_mult_left_eq mult.assoc)
  finally show ?case by (simp add: shape_product_def)
qed

lemma number_of_elements_product:
  "shp \<noteq> [] \<Longrightarrow>
   \<exists>ne. number_of_elements shp = Inr ne \<and> unat ne = shape_product shp mod 2 ^ 64"
  by (cases shp) (simp_all add: ne_loop_product, simp add: shape_product_def)

lemma length_resize: "resize m z n xs = Inr ys \<Longrightarrow> length ys = n"
  by (auto simp: resize_def split: if_splits)

lemma resize_outcomes:
  "(\<exists>ys. resize m z n xs = Inr ys)
   \<or> (length xs < n \<and> (resize m z n xs = Inl (Throw LengthError)
                        \<or> resize m z n xs = Inl (Throw BadAlloc)))"
  by (simp add: resize_def)

lemma resize_granted:
  "n \<le> max_size m \<Longrightarrow> n \<le> available m \<Longrightarrow>
   resize m z n xs = Inr (take n xs @ replicate (n - length xs) z)"
  by (simp add: resize_def)

lemma NPArray_shape_invariant:
  "NPArray_shape m z init_shape c = Inr a \<Longrightarrow> invariant_wrapped a"
proof -
  assume h: "NPArray_shape m z init_shape c = Inr a"
  then have ne: "init_shape \<noteq> []"
    by (auto simp: NPArray_shape_def split: if_splits)
  then obtain n where n: "number_of_elements init_shape = Inr n"
    "unat n = shape_product init_shape mod 2 ^ 64"
    using number_of_elements_product by blast
  from h ne n obtain ys where ys: "resize m z (unat n) [] = Inr ys"
    and a: "a = \<lparr>data' = ys, shape' = init_shape, c_continuous' = c,
                  dimensions' = length init_shape\<rparr>"
    by (auto simp: NPArray_shape_def bind_def split: sum.splits)
  from ys have "length ys = unat n" by (rule length_resize)
  with a n ne show ?thesis
    by (simp add: invariant_wrapped_def shape_def size_of_def Suc_le_eq)
qed

text \<open>With the storage granted, the shape constructor returns an array for every non-empty shape.\<close>

lemma NPArray_shape_returns:
  assumes "init_shape \<noteq> []"
    and "shape_product init_shape mod 2 ^ 64 \<le> max_size m"
    and "shape_product init_shape mod 2 ^ 64 \<le> available m"
  shows "NPArray_shape m z init_shape c
         = Inr \<lparr>data' = replicate (shape_product init_shape mod 2 ^ 64) z, shape' = init_shape,
                c_continuous' = c, dimensions' = length init_shape\<rparr>"
proof -
  from assms(1) obtain n where n: "number_of_elements init_shape = Inr n"
    "unat n = shape_product init_shape mod 2 ^ 64"
    using number_of_elements_product by blast
  have "resize m z (unat n) [] = Inr (replicate (unat n) z)"
    using assms(2,3) n(2) by (simp add: resize_granted)
  with assms(1) n show ?thesis
    by (simp add: NPArray_shape_def bind_def)
qed

lemma NPArray_data_invariant:
  "NPArray_data d init_shape c = Inr a \<Longrightarrow> invariant_wrapped a"
proof -
  assume h: "NPArray_data d init_shape c = Inr a"
  then have ne: "init_shape \<noteq> []"
    by (auto simp: NPArray_data_def split: if_splits)
  then obtain n where n: "number_of_elements init_shape = Inr n"
    "unat n = shape_product init_shape mod 2 ^ 64"
    using number_of_elements_product by blast
  with h ne show ?thesis
    by (auto simp: NPArray_data_def bind_def invariant_wrapped_def shape_def size_of_def
        Suc_le_eq split: if_splits)
qed

lemma load_invariant:
  "load T h beyond file = Inr a \<Longrightarrow> invariant_wrapped a"
proof -
  assume h: "load T h beyond file = Inr a"
  then obtain d shp b where b: "NPArray_data d shp True = Inr b"
    and a: "a = b\<lparr>c_continuous' := c_continuous' a\<rparr>"
    by (auto simp: load_def bind_def split: sum.splits prod.splits if_splits)
  from b have "invariant_wrapped b" by (rule NPArray_data_invariant)
  then have "invariant_wrapped (b\<lparr>c_continuous' := c_continuous' a\<rparr>)"
    by (simp add: invariant_wrapped_def shape_def size_of_def)
  with a show ?thesis by simp
qed

lemma reshape_cases:
  "reshape a new_shape =
     (if new_shape = [] then (Inl (Throw ShapeEmpty), a)
      else if shape_product new_shape mod 2 ^ 64 = size_of a
           then (Inr (), a\<lparr>shape' := new_shape, dimensions' := length new_shape\<rparr>)
           else (Inl (Throw ShapeIncompatible), a))"
proof (cases "new_shape = []")
  case True
  then show ?thesis by (simp add: reshape_def)
next
  case False
  then obtain n where n: "number_of_elements new_shape = Inr n"
    "unat n = shape_product new_shape mod 2 ^ 64"
    using number_of_elements_product by blast
  with False show ?thesis
    by (simp add: reshape_def size_of_def Suc_le_eq not_less [symmetric])
qed

lemma reallocate_cases:
  "reallocate m z a new_shape =
     (if new_shape = [] then (Inl (Throw ShapeEmpty), a)
      else case resize m z (shape_product new_shape mod 2 ^ 64) (data' a) of
             Inl e \<Rightarrow> (Inl e, a\<lparr>shape' := new_shape, dimensions' := length new_shape\<rparr>)
           | Inr resized \<Rightarrow>
               (Inr (), a\<lparr>shape' := new_shape, dimensions' := length new_shape,
                           data' := resized\<rparr>))"
proof (cases "new_shape = []")
  case True
  then show ?thesis by (simp add: reallocate_def)
next
  case False
  then obtain n where n: "number_of_elements new_shape = Inr n"
    "unat n = shape_product new_shape mod 2 ^ 64"
    using number_of_elements_product by blast
  with False show ?thesis
    by (simp add: reallocate_def Let_def split: sum.splits)
qed

text \<open>
  Every array that a constructor with a shape or \<open>load\<close> returns keeps its rank with its
  shape, and so does every array that \<open>reshape\<close> or \<open>reallocate\<close> leaves behind from such
  an array, whatever the outcome of the call.
\<close>

lemma rank_kept_with_shape:
  "(NPArray_shape m z init_shape c = Inr a1 \<longrightarrow> dimensions' a1 = length (shape' a1))
   \<and> (NPArray_data d init_shape c = Inr a2 \<longrightarrow> dimensions' a2 = length (shape' a2))
   \<and> (load T h beyond file = Inr a3 \<longrightarrow> dimensions' a3 = length (shape' a3))
   \<and> (dimensions' a0 = length (shape' a0) \<longrightarrow>
        dimensions' (snd (reshape a0 new_shape)) = length (shape' (snd (reshape a0 new_shape)))
      \<and> dimensions' (snd (reallocate m z a0 new_shape))
          = length (shape' (snd (reallocate m z a0 new_shape))))"
proof (intro conjI impI)
  show "NPArray_shape m z init_shape c = Inr a1 \<Longrightarrow> dimensions' a1 = length (shape' a1)"
    using NPArray_shape_invariant [of m z init_shape c a1]
    by (simp add: invariant_wrapped_def shape_def)
  show "NPArray_data d init_shape c = Inr a2 \<Longrightarrow> dimensions' a2 = length (shape' a2)"
    using NPArray_data_invariant [of d init_shape c a2]
    by (simp add: invariant_wrapped_def shape_def)
  show "load T h beyond file = Inr a3 \<Longrightarrow> dimensions' a3 = length (shape' a3)"
    using load_invariant [of T h beyond "file" a3]
    by (simp add: invariant_wrapped_def shape_def)
  show "dimensions' a0 = length (shape' a0) \<Longrightarrow>
        dimensions' (snd (reshape a0 new_shape)) = length (shape' (snd (reshape a0 new_shape)))"
    by (simp add: reshape_cases)
  show "dimensions' a0 = length (shape' a0) \<Longrightarrow>
        dimensions' (snd (reallocate m z a0 new_shape))
          = length (shape' (snd (reallocate m z a0 new_shape)))"
    by (simp add: reallocate_cases split: sum.splits)
qed

text \<open>
  C6, as the code has it. \<open>reshape\<close> succeeds exactly when the new shape is non-empty and
  the product of its extents, reduced modulo \<open>2^64\<close>, equals the current element count.
  On success only the shape (and the rank kept with it) changes: the buffer and the layout
  flag are the same. On failure it throws the shape error of the failing test (empty
  shape, or count mismatch) and the array is the same as before.
\<close>

theorem reshape_behaviour:
  "(fst (reshape a new_shape) = Inr ()
      \<longleftrightarrow> new_shape \<noteq> [] \<and> shape_product new_shape mod 2 ^ 64 = size_of a)
   \<and> (fst (reshape a new_shape) = Inr () \<longrightarrow>
        snd (reshape a new_shape) = a\<lparr>shape' := new_shape, dimensions' := length new_shape\<rparr>
        \<and> data' (snd (reshape a new_shape)) = data' a
        \<and> c_continuous' (snd (reshape a new_shape)) = c_continuous' a
        \<and> shape (snd (reshape a new_shape)) = new_shape)
   \<and> (fst (reshape a new_shape) \<noteq> Inr () \<longrightarrow>
        snd (reshape a new_shape) = a
        \<and> fst (reshape a new_shape)
            = Inl (Throw (if new_shape = [] then ShapeEmpty else ShapeIncompatible)))"
  by (simp add: reshape_cases shape_def)

theorem reshape_behaviour_witness:
  "reshape \<lparr>data' = [10, 11, 12, 13, 14, 15 :: int], shape' = [2, 3],
       c_continuous' = True, dimensions' = 2\<rparr> [3, 2]
     = (Inr (), \<lparr>data' = [10, 11, 12, 13, 14, 15 :: int], shape' = [3, 2],
       c_continuous' = True, dimensions' = 2\<rparr>)
   \<and> reshape \<lparr>data' = [10, 11, 12, 13, 14, 15 :: int], shape' = [2, 3],
       c_continuous' = True, dimensions' = 2\<rparr> [4, 2]
     = (Inl (Throw ShapeIncompatible), \<lparr>data' = [10, 11, 12, 13, 14, 15 :: int],
       shape' = [2, 3], c_continuous' = True, dimensions' = 2\<rparr>)"
proof -
  let ?a = "\<lparr>data' = [10, 11, 12, 13, 14, 15 :: int], shape' = [2, 3],
       c_continuous' = True, dimensions' = 2\<rparr>"
  have p1: "shape_product [3, 2] mod 2 ^ 64 = size_of ?a"
    by (simp add: shape_product_def size_of_def)
  have p2: "shape_product [4, 2] mod 2 ^ 64 \<noteq> size_of ?a"
    by (simp add: shape_product_def size_of_def)
  have "fst (reshape ?a [3, 2]) = Inr ()"
    using reshape_behaviour [of ?a "[3, 2]"] p1 by simp
  then have s: "reshape ?a [3, 2] = (Inr (), ?a\<lparr>shape' := [3, 2], dimensions' := 2\<rparr>)"
    using reshape_behaviour [of ?a "[3, 2]"] by (simp add: prod_eq_iff)
  have "fst (reshape ?a [4, 2]) \<noteq> Inr ()"
    using reshape_behaviour [of ?a "[4, 2]"] p2 by simp
  then have f: "reshape ?a [4, 2] = (Inl (Throw ShapeIncompatible), ?a)"
    using reshape_behaviour [of ?a "[4, 2]"] by (simp add: prod_eq_iff)
  from s f show ?thesis by simp
qed

text \<open>
  C6, as the claim states it, fails where the product wraps: an array with no element is
  reshaped to \<open>[2^32, 2^32]\<close> with success, and the product of these extents is \<open>2^64\<close>,
  not 0.
\<close>

theorem reshape_product_counterexample:
  "fst (reshape \<lparr>data' = ([] :: int list), shape' = [0], c_continuous' = True,
          dimensions' = 1\<rparr> [4294967296, 4294967296]) = Inr ()
   \<and> shape_product [4294967296, 4294967296]
       \<noteq> size_of \<lparr>data' = ([] :: int list), shape' = [0], c_continuous' = True,
            dimensions' = 1\<rparr>"
  by (simp add: reshape_def shape_product_def size_of_def)

section \<open>Endianness utility: the swap routines\<close>

lemma span_decomposition:
  assumes "p + w \<le> length xs"
  obtains pre mid post where "xs = pre @ mid @ post" "length pre = p" "length mid = w"
    "take p xs = pre" "take w (drop p xs) = mid" "drop (p + w) xs = post"
proof
  have "take w (drop p xs) @ drop w (drop p xs) = drop p xs"
    by (rule append_take_drop_id)
  then have "take p xs @ take w (drop p xs) @ drop (p + w) xs = xs"
    by (simp add: add.commute)
  then show "xs = take p xs @ take w (drop p xs) @ drop (p + w) xs" by simp
  show "length (take p xs) = p" using assms by simp
  show "length (take w (drop p xs)) = w" using assms by auto
qed simp_all

lemma length_reverse_span:
  assumes "p + w \<le> length xs"
  shows "length (take p xs @ rev (take w (drop p xs)) @ drop (p + w) xs) = length xs"
proof -
  from assms obtain pre mid post
    where xs: "xs = pre @ mid @ post" and pre: "length pre = p" and mid: "length mid = w"
      and parts: "take p xs = pre" "take w (drop p xs) = mid" "drop (p + w) xs = post"
    by (rule span_decomposition)
  show ?thesis unfolding parts by (simp add: xs)
qed

lemma nth_span_before:
  assumes "p + w \<le> length xs" "i < p"
  shows "(take p xs @ rev (take w (drop p xs)) @ drop (p + w) xs) ! i = xs ! i"
  using assms by (simp add: nth_append)

lemma nth_span_after:
  assumes "p + w \<le> length xs" "p + w \<le> i"
  shows "(take p xs @ rev (take w (drop p xs)) @ drop (p + w) xs) ! i = xs ! i"
proof -
  from assms(1) obtain pre mid post
    where xs: "xs = pre @ mid @ post" and pre: "length pre = p" and mid: "length mid = w"
      and parts: "take p xs = pre" "take w (drop p xs) = mid" "drop (p + w) xs = post"
    by (rule span_decomposition)
  have a: "\<not> i < p" and b: "\<not> i - p < w" using assms(2) by arith+
  show ?thesis unfolding parts using a b by (simp add: xs nth_append pre mid)
qed

lemma nth_span_inside:
  assumes "p + w \<le> length xs" "k < w"
  shows "(take p xs @ rev (take w (drop p xs)) @ drop (p + w) xs) ! (p + k)
         = xs ! (p + (w - 1 - k))"
proof -
  from assms(1) obtain pre mid post
    where xs: "xs = pre @ mid @ post" and pre: "length pre = p" and mid: "length mid = w"
      and parts: "take p xs = pre" "take w (drop p xs) = mid" "drop (p + w) xs = post"
    by (rule span_decomposition)
  have k': "w - 1 - k < w" using assms(2) by arith
  have "(pre @ rev mid @ post) ! (p + k) = mid ! (w - Suc k)"
    using assms(2) by (simp add: nth_append pre mid rev_nth)
  moreover have "xs ! (p + (w - 1 - k)) = mid ! (w - 1 - k)"
    using k' by (simp add: xs nth_append pre mid)
  ultimately show ?thesis unfolding parts by simp
qed

lemma swap_two_bytes_rev:
  assumes "p + 2 \<le> length bytes"
  shows "swap_two_bytes p bytes
         = Inr (take p bytes @ rev (take 2 (drop p bytes)) @ drop (p + 2) bytes)"
proof -
  let ?t = "take 2 (drop p bytes)"
  let ?u = "bytes[p := ?t ! 1, p + 1 := ?t ! 0]"
  let ?r = "take p bytes @ rev ?t @ drop (p + 2) bytes"
  have "?u = ?r"
  proof (rule nth_equalityI)
    show "length ?u = length ?r"
      unfolding length_reverse_span [OF assms] by simp
  next
    fix i
    assume "i < length ?u"
    then have i: "i < length bytes" by simp
    consider "i < p" | "p + 2 \<le> i" | k where "i = p + k" "k < 2"
      by (metis le_Suc_ex add_less_cancel_left not_le)
    then show "?u ! i = ?r ! i"
    proof cases
      case 1
      then show ?thesis
        unfolding nth_span_before [OF assms 1] by simp
    next
      case 2
      then show ?thesis
        unfolding nth_span_after [OF assms 2] by simp
    next
      case 3
      from 3(2) have "k = 0 \<or> k = 1"
        by presburger
      then show ?thesis
        unfolding 3(1) nth_span_inside [OF assms 3(2)] using assms
        by (elim disjE; simp add: nth_list_update)
    qed
  qed
  with assms show ?thesis by (simp add: swap_two_bytes_def Let_def)
qed

lemma swap_four_bytes_rev:
  assumes "p + 4 \<le> length bytes"
  shows "swap_four_bytes p bytes
         = Inr (take p bytes @ rev (take 4 (drop p bytes)) @ drop (p + 4) bytes)"
proof -
  let ?t = "take 4 (drop p bytes)"
  let ?u = "bytes[p := ?t ! 3, p + 1 := ?t ! 2, p + 2 := ?t ! 1, p + 3 := ?t ! 0]"
  let ?r = "take p bytes @ rev ?t @ drop (p + 4) bytes"
  have "?u = ?r"
  proof (rule nth_equalityI)
    show "length ?u = length ?r"
      unfolding length_reverse_span [OF assms] by simp
  next
    fix i
    assume "i < length ?u"
    then have i: "i < length bytes" by simp
    consider "i < p" | "p + 4 \<le> i" | k where "i = p + k" "k < 4"
      by (metis le_Suc_ex add_less_cancel_left not_le)
    then show "?u ! i = ?r ! i"
    proof cases
      case 1
      then show ?thesis
        unfolding nth_span_before [OF assms 1] by simp
    next
      case 2
      then show ?thesis
        unfolding nth_span_after [OF assms 2] by simp
    next
      case 3
      from 3(2) have "k = 0 \<or> k = 1 \<or> k = 2 \<or> k = 3"
        by presburger
      then show ?thesis
        unfolding 3(1) nth_span_inside [OF assms 3(2)] using assms
        by (elim disjE; simp add: nth_list_update)
    qed
  qed
  with assms show ?thesis by (simp add: swap_four_bytes_def Let_def)
qed

lemma swap_eight_bytes_rev:
  assumes "p + 8 \<le> length bytes"
  shows "swap_eight_bytes p bytes
         = Inr (take p bytes @ rev (take 8 (drop p bytes)) @ drop (p + 8) bytes)"
proof -
  let ?t = "take 8 (drop p bytes)"
  let ?u = "bytes[p := ?t ! 7, p + 1 := ?t ! 6, p + 2 := ?t ! 5, p + 3 := ?t ! 4, p + 4 := ?t ! 3, p + 5 := ?t ! 2, p + 6 := ?t ! 1, p + 7 := ?t ! 0]"
  let ?r = "take p bytes @ rev ?t @ drop (p + 8) bytes"
  have "?u = ?r"
  proof (rule nth_equalityI)
    show "length ?u = length ?r"
      unfolding length_reverse_span [OF assms] by simp
  next
    fix i
    assume "i < length ?u"
    then have i: "i < length bytes" by simp
    consider "i < p" | "p + 8 \<le> i" | k where "i = p + k" "k < 8"
      by (metis le_Suc_ex add_less_cancel_left not_le)
    then show "?u ! i = ?r ! i"
    proof cases
      case 1
      then show ?thesis
        unfolding nth_span_before [OF assms 1] by simp
    next
      case 2
      then show ?thesis
        unfolding nth_span_after [OF assms 2] by simp
    next
      case 3
      from 3(2) have "k = 0 \<or> k = 1 \<or> k = 2 \<or> k = 3 \<or> k = 4 \<or> k = 5 \<or> k = 6 \<or> k = 7"
        by presburger
      then show ?thesis
        unfolding 3(1) nth_span_inside [OF assms 3(2)] using assms
        by (elim disjE; simp add: nth_list_update)
    qed
  qed
  with assms show ?thesis by (simp add: swap_eight_bytes_def Let_def)
qed

lemma swap_sixteen_bytes_rev:
  assumes "p + 16 \<le> length bytes"
  shows "swap_sixteen_bytes p bytes
         = Inr (take p bytes @ rev (take 16 (drop p bytes)) @ drop (p + 16) bytes)"
proof -
  let ?t = "take 16 (drop p bytes)"
  let ?u = "bytes[p := ?t ! 15, p + 1 := ?t ! 14, p + 2 := ?t ! 13, p + 3 := ?t ! 12, p + 4 := ?t ! 11, p + 5 := ?t ! 10, p + 6 := ?t ! 9, p + 7 := ?t ! 8, p + 8 := ?t ! 7, p + 9 := ?t ! 6, p + 10 := ?t ! 5, p + 11 := ?t ! 4, p + 12 := ?t ! 3, p + 13 := ?t ! 2, p + 14 := ?t ! 1, p + 15 := ?t ! 0]"
  let ?r = "take p bytes @ rev ?t @ drop (p + 16) bytes"
  have "?u = ?r"
  proof (rule nth_equalityI)
    show "length ?u = length ?r"
      unfolding length_reverse_span [OF assms] by simp
  next
    fix i
    assume "i < length ?u"
    then have i: "i < length bytes" by simp
    consider "i < p" | "p + 16 \<le> i" | k where "i = p + k" "k < 16"
      by (metis le_Suc_ex add_less_cancel_left not_le)
    then show "?u ! i = ?r ! i"
    proof cases
      case 1
      then show ?thesis
        unfolding nth_span_before [OF assms 1] by simp
    next
      case 2
      then show ?thesis
        unfolding nth_span_after [OF assms 2] by simp
    next
      case 3
      from 3(2) have "k = 0 \<or> k = 1 \<or> k = 2 \<or> k = 3 \<or> k = 4 \<or> k = 5 \<or> k = 6 \<or> k = 7 \<or> k = 8 \<or> k = 9 \<or> k = 10 \<or> k = 11 \<or> k = 12 \<or> k = 13 \<or> k = 14 \<or> k = 15"
        by presburger
      then show ?thesis
        unfolding 3(1) nth_span_inside [OF assms 3(2)] using assms
        by (elim disjE; simp add: nth_list_update)
    qed
  qed
  with assms show ?thesis by (simp add: swap_sixteen_bytes_def Let_def)
qed

lemma swap_bytes_loop_step:
  assumes "w \<in> {2, 4, 8, 16}" "i < N" "i + w \<le> length data"
  shows "swap_bytes_loop data N w i
         = swap_bytes_loop (take i data @ rev (take w (drop i data)) @ drop (i + w) data)
             N w (i + w)"
  using assms
  by (subst swap_bytes_loop.simps)
     (auto simp: swap_two_bytes_rev swap_four_bytes_rev swap_eight_bytes_rev
        swap_sixteen_bytes_rev)

lemma length_reverse_elements:
  "n * w \<le> length xs \<Longrightarrow> length (reverse_elements w n xs) = length xs"
proof (induction n arbitrary: xs)
  case 0
  then show ?case by simp
next
  case (Suc n)
  then have "n * w \<le> length (drop w xs)" and "w \<le> length xs" by simp_all
  with Suc.IH [of "drop w xs"] show ?case by simp
qed

lemma reverse_elements_involution:
  "n * w \<le> length xs \<Longrightarrow> reverse_elements w n (reverse_elements w n xs) = xs"
proof (induction n arbitrary: xs)
  case 0
  then show ?case by simp
next
  case (Suc n)
  then have n: "n * w \<le> length (drop w xs)" and w: "w \<le> length xs" by simp_all
  have len: "length (rev (take w xs)) = w" using w by simp
  have t: "take w (rev (take w xs) @ reverse_elements w n (drop w xs)) = rev (take w xs)"
    using len by simp
  have d: "drop w (rev (take w xs) @ reverse_elements w n (drop w xs))
           = reverse_elements w n (drop w xs)"
    using len by simp
  show ?case
    by (simp only: reverse_elements.simps t d rev_rev_ident Suc.IH [OF n] append_take_drop_id)
qed

lemma swap_bytes_loop_reverse:
  assumes "w \<in> {2, 4, 8, 16}"
  shows "i + m * w = N \<Longrightarrow> N \<le> length data \<Longrightarrow>
         swap_bytes_loop data N w i = Inr (take i data @ reverse_elements w m (drop i data))"
proof (induction m arbitrary: data i)
  case 0
  then show ?case by (subst swap_bytes_loop.simps) simp
next
  case (Suc m)
  from assms have w0: "0 < w" by auto
  from Suc.prems w0 have lt: "i < N" and le: "i + w \<le> length data" by simp_all
  let ?d = "take i data @ rev (take w (drop i data)) @ drop (i + w) data"
  have len: "length ?d = length data" using le by (rule length_reverse_span)
  have ti: "length (take i data) = i" using le by simp
  have tw: "length (rev (take w (drop i data))) = w" using le by auto
  have tk: "take (i + w) ?d = take i data @ rev (take w (drop i data))"
    using ti tw by simp
  have dr: "drop (i + w) ?d = drop (i + w) data"
    using ti tw by simp
  have "swap_bytes_loop data N w i = swap_bytes_loop ?d N w (i + w)"
    using assms lt le by (rule swap_bytes_loop_step)
  also have "\<dots> = Inr (take (i + w) ?d @ reverse_elements w m (drop (i + w) ?d))"
    using Suc.prems by (intro Suc.IH) (simp_all add: len)
  also have "\<dots> = Inr (take i data @ reverse_elements w (Suc m) (drop i data))"
    unfolding tk dr by (simp add: add.commute)
  finally show ?case .
qed

lemma swap_bytes_reverse:
  assumes "w \<in> {2, 4, 8, 16}" "n * w \<le> length data" "n * w < 2 ^ 64"
  shows "swap_bytes data n w = Inr (reverse_elements w n data)"
  using swap_bytes_loop_reverse [OF assms(1), of 0 n "n * w" data] assms(2,3)
  by (simp add: swap_bytes_def)

text \<open>
  C8. Each fixed-width routine, applied to a pattern of its width, returns the pattern
  reversed (byte \<open>i\<close> and byte \<open>w-1-i\<close> exchanged), and applied twice returns the
  pattern. \<open>swap_bytes\<close> with a width of 2, 4, 8 or 16 over a buffer that holds the
  \<open>n\<close> elements reverses each element, and applied twice returns the buffer.
\<close>

theorem swap_involution:
  "(length b2 = 2 \<longrightarrow> swap_two_bytes 0 b2 = Inr (rev b2)
      \<and> bind (swap_two_bytes 0 b2) (swap_two_bytes 0) = Inr b2)
   \<and> (length b4 = 4 \<longrightarrow> swap_four_bytes 0 b4 = Inr (rev b4)
      \<and> bind (swap_four_bytes 0 b4) (swap_four_bytes 0) = Inr b4)
   \<and> (length b8 = 8 \<longrightarrow> swap_eight_bytes 0 b8 = Inr (rev b8)
      \<and> bind (swap_eight_bytes 0 b8) (swap_eight_bytes 0) = Inr b8)
   \<and> (length b16 = 16 \<longrightarrow> swap_sixteen_bytes 0 b16 = Inr (rev b16)
      \<and> bind (swap_sixteen_bytes 0 b16) (swap_sixteen_bytes 0) = Inr b16)
   \<and> (w \<in> {2, 4, 8, 16} \<and> n * w \<le> length data \<and> n * w < 2 ^ 64 \<longrightarrow>
        swap_bytes data n w = Inr (reverse_elements w n data)
      \<and> bind (swap_bytes data n w) (\<lambda>d. swap_bytes d n w) = Inr data)"
proof (intro conjI impI)
  assume "length b2 = 2"
  then show "swap_two_bytes 0 b2 = Inr (rev b2)"
    and "bind (swap_two_bytes 0 b2) (swap_two_bytes 0) = Inr b2"
    by (simp_all add: swap_two_bytes_rev bind_def)
next
  assume "length b4 = 4"
  then show "swap_four_bytes 0 b4 = Inr (rev b4)"
    and "bind (swap_four_bytes 0 b4) (swap_four_bytes 0) = Inr b4"
    by (simp_all add: swap_four_bytes_rev bind_def)
next
  assume "length b8 = 8"
  then show "swap_eight_bytes 0 b8 = Inr (rev b8)"
    and "bind (swap_eight_bytes 0 b8) (swap_eight_bytes 0) = Inr b8"
    by (simp_all add: swap_eight_bytes_rev bind_def)
next
  assume "length b16 = 16"
  then show "swap_sixteen_bytes 0 b16 = Inr (rev b16)"
    and "bind (swap_sixteen_bytes 0 b16) (swap_sixteen_bytes 0) = Inr b16"
    by (simp_all add: swap_sixteen_bytes_rev bind_def)
next
  assume h: "w \<in> {2, 4, 8, 16} \<and> n * w \<le> length data \<and> n * w < 2 ^ 64"
  then have w: "w \<in> {2, 4, 8, 16}" and le: "n * w \<le> length data" and lt: "n * w < 2 ^ 64"
    by simp_all
  show first: "swap_bytes data n w = Inr (reverse_elements w n data)"
    using w le lt by (rule swap_bytes_reverse)
  have "n * w \<le> length (reverse_elements w n data)"
    using le by (simp add: length_reverse_elements)
  then have "swap_bytes (reverse_elements w n data) n w
             = Inr (reverse_elements w n (reverse_elements w n data))"
    using w lt by (intro swap_bytes_reverse)
  then show "bind (swap_bytes data n w) (\<lambda>d. swap_bytes d n w) = Inr data"
    using le by (simp add: first bind_def reverse_elements_involution)
qed

theorem swap_involution_witness:
  "swap_two_bytes 0 ''ab'' = Inr ''ba''
   \<and> swap_four_bytes 0 ''abcd'' = Inr ''dcba''
   \<and> swap_eight_bytes 0 ''abcdefgh'' = Inr ''hgfedcba''
   \<and> swap_sixteen_bytes 0 ''abcdefghijklmnop'' = Inr ''ponmlkjihgfedcba''
   \<and> swap_bytes ''abcdefgh'' 2 4 = Inr ''dcbahgfe''
   \<and> bind (swap_bytes ''abcdefgh'' 2 4) (\<lambda>d. swap_bytes d 2 4) = Inr ''abcdefgh''"
proof -
  have r: "reverse_elements 4 2 ''abcdefgh'' = ''dcbahgfe''"
    by (simp add: numeral_2_eq_2)
  have inst: "swap_two_bytes 0 ''ab'' = Inr (rev ''ab'')
      \<and> swap_four_bytes 0 ''abcd'' = Inr (rev ''abcd'')
      \<and> swap_eight_bytes 0 ''abcdefgh'' = Inr (rev ''abcdefgh'')
      \<and> swap_sixteen_bytes 0 ''abcdefghijklmnop'' = Inr (rev ''abcdefghijklmnop'')
      \<and> swap_bytes ''abcdefgh'' 2 4 = Inr (reverse_elements 4 2 ''abcdefgh'')
      \<and> bind (swap_bytes ''abcdefgh'' 2 4) (\<lambda>d. swap_bytes d 2 4) = Inr ''abcdefgh''"
  proof -
    have p: "length ''ab'' = 2" "length ''abcd'' = 4" "length ''abcdefgh'' = 8"
      "length ''abcdefghijklmnop'' = 16"
      "(4 :: nat) \<in> {2, 4, 8, 16} \<and> 2 * 4 \<le> length ''abcdefgh'' \<and> (2 :: nat) * 4 < 2 ^ 64"
      by simp_all
    from p swap_involution [of "''ab''" "''abcd''" "''abcdefgh''" "''abcdefghijklmnop''"
        4 2 "''abcdefgh''"]
    show ?thesis by blast
  qed
  have v: "rev ''ab'' = ''ba''" "rev ''abcd'' = ''dcba''" "rev ''abcdefgh'' = ''hgfedcba''"
    "rev ''abcdefghijklmnop'' = ''ponmlkjihgfedcba''"
    by simp_all
  show ?thesis using inst unfolding r v by blast
qed

section \<open>Format codec: the header-length field\<close>

lemma swap_bytes_width_1: "swap_bytes_loop data N (Suc 0) i = Inr data"
proof (induction "N - i" arbitrary: i)
  case 0
  then show ?case by (subst swap_bytes_loop.simps) simp
next
  case (Suc k)
  then have "k = N - Suc i" and "i < N" by simp_all
  with Suc.hyps(1) [of "Suc i"] show ?case
    by (subst swap_bytes_loop.simps) simp
qed

text \<open>
  C7, as the code has it. On every host, two bytes are read when the major version byte is
  1, and four bytes when the byte, as a \<^verbatim>\<open>char\<close> of the host, is at least 2: the call returns
  a length and leaves the file behind those bytes. On a little-endian host the length is
  the little-endian number of the bytes read. For every other major version byte nothing
  is read and the header length is 0.
\<close>

theorem header_length_field:
  "(major = CHR 0x01 \<longrightarrow>
      (\<exists>v. read_header_length h major (b0 # b1 # rest) = Inr (v, rest)
         \<and> (little_endian h \<longrightarrow> v = of_char b0 + 256 * of_char b1)))
   \<and> (major \<noteq> CHR 0x01 \<and> 2 \<le> char_to_int h major \<longrightarrow>
      (\<exists>v. read_header_length h major (b0 # b1 # b2 # b3 # rest) = Inr (v, rest)
         \<and> (little_endian h \<longrightarrow>
               v = of_char b0 + 256 * (of_char b1 + 256 * (of_char b2 + 256 * of_char b3)))))
   \<and> (major \<noteq> CHR 0x01 \<and> char_to_int h major < 2 \<longrightarrow>
         read_header_length h major file = Inr (0, file))"
  by (simp add: read_header_length_def file_read_def bind_def system_is_little_endian_def
      uint_of_mem_def swap_bytes_def swap_bytes_width_1)

theorem header_length_field_witness:
  "read_header_length \<lparr>little_endian = True, char_signed = True\<rparr> (CHR 0x01)
       [CHR 0x76, CHR 0x00, CHR ''{''] = Inr (118, [CHR ''{''])
   \<and> read_header_length \<lparr>little_endian = True, char_signed = True\<rparr> (CHR 0x02)
       [CHR 0x76, CHR 0x01, CHR 0x00, CHR 0x00, CHR ''{''] = Inr (374, [CHR ''{''])
   \<and> read_header_length \<lparr>little_endian = True, char_signed = True\<rparr> (CHR 0x80)
       [CHR 0x76, CHR 0x01, CHR 0x00, CHR 0x00, CHR ''{'']
       = Inr (0, [CHR 0x76, CHR 0x01, CHR 0x00, CHR 0x00, CHR ''{''])
   \<and> (\<exists>v. read_header_length \<lparr>little_endian = False, char_signed = False\<rparr> (CHR 0x01)
       [CHR 0x76, CHR 0x00, CHR ''{''] = Inr (v, [CHR ''{'']))
   \<and> (\<exists>v. read_header_length \<lparr>little_endian = False, char_signed = False\<rparr> (CHR 0x80)
       [CHR 0x76, CHR 0x01, CHR 0x00, CHR 0x00, CHR ''{''] = Inr (v, [CHR ''{'']))"
proof -
  let ?h = "\<lparr>little_endian = True, char_signed = True\<rparr>"
  let ?b = "\<lparr>little_endian = False, char_signed = False\<rparr>"
  have c: "2 \<le> char_to_int ?h (CHR 0x02)" "char_to_int ?h (CHR 0x80) < 2"
    "2 \<le> char_to_int ?b (CHR 0x80)"
    by (simp_all add: char_to_int_def)
  have le: "little_endian ?h" by simp
  have d: "CHR 0x02 \<noteq> CHR 0x01" "CHR 0x80 \<noteq> CHR 0x01" by simp_all
  have p1: "read_header_length ?h (CHR 0x01) [CHR 0x76, CHR 0x00, CHR ''{'']
            = Inr (118, [CHR ''{''])"
    using header_length_field [of "CHR 0x01" ?h "CHR 0x76" "CHR 0x00" "[CHR ''{'']"] le
    by auto
  have p2: "read_header_length ?h (CHR 0x02) [CHR 0x76, CHR 0x01, CHR 0x00, CHR 0x00, CHR ''{'']
            = Inr (374, [CHR ''{''])"
    using header_length_field [of "CHR 0x02" ?h "CHR 0x76" "CHR 0x01" "[CHR ''{'']"
        "CHR 0x00" "CHR 0x00"] le c(1) d(1)
    by auto
  have p3: "read_header_length ?h (CHR 0x80) [CHR 0x76, CHR 0x01, CHR 0x00, CHR 0x00, CHR ''{'']
            = Inr (0, [CHR 0x76, CHR 0x01, CHR 0x00, CHR 0x00, CHR ''{''])"
    using header_length_field [of "CHR 0x80" ?h _ _ _ _ _
        "[CHR 0x76, CHR 0x01, CHR 0x00, CHR 0x00, CHR ''{'']"] c(2) d(2)
    by blast
  have p4: "\<exists>v. read_header_length ?b (CHR 0x01) [CHR 0x76, CHR 0x00, CHR ''{'']
            = Inr (v, [CHR ''{''])"
    using header_length_field [of "CHR 0x01" ?b "CHR 0x76" "CHR 0x00" "[CHR ''{'']"]
    by blast
  have p5: "\<exists>v. read_header_length ?b (CHR 0x80)
              [CHR 0x76, CHR 0x01, CHR 0x00, CHR 0x00, CHR ''{''] = Inr (v, [CHR ''{''])"
    using header_length_field [of "CHR 0x80" ?b "CHR 0x76" "CHR 0x01" "[CHR ''{'']"
        "CHR 0x00" "CHR 0x00"] c(3) d(2)
    by blast
  from p1 p2 p3 p4 p5 show ?thesis by blast
qed

text \<open>
  C7, as the claim states it, fails for a major version byte other than 1 that is below
  2: with the byte 0 no length field is read, the header length is 0 and the four bytes
  that follow stay in the file.
\<close>

theorem header_length_field_counterexample:
  "read_header_length \<lparr>little_endian = True, char_signed = True\<rparr> (CHR 0x00)
       [CHR 0x76, CHR 0x00, CHR 0x00, CHR 0x00, CHR ''{'']
     = Inr (0, [CHR 0x76, CHR 0x00, CHR 0x00, CHR 0x00, CHR ''{''])
   \<and> read_header_length \<lparr>little_endian = True, char_signed = True\<rparr> (CHR 0x00)
       [CHR 0x76, CHR 0x00, CHR 0x00, CHR 0x00, CHR ''{'']
     \<noteq> Inr (118, [CHR ''{''])"
  by (simp add: read_header_length_def char_to_int_def)

text \<open>
  On a host that is not little-endian the calls \<^verbatim>\<open>swap_bytes(&length_temp, 2, 1)\<close> and
  \<^verbatim>\<open>swap_bytes(&length_temp, 4, 1)\<close> change nothing, and the bytes are taken in the order
  of the host.
\<close>

lemma header_length_big_endian:
  "\<not> little_endian h \<Longrightarrow>
   read_header_length h (CHR 0x01) (b0 # b1 # rest)
     = Inr (of_char b1 + 256 * of_char b0, rest)"
  by (simp add: read_header_length_def file_read_def bind_def system_is_little_endian_def
      uint_of_mem_def swap_bytes_def swap_bytes_width_1)

lemma header_length_big_endian_4:
  "\<not> little_endian h \<Longrightarrow> major \<noteq> CHR 0x01 \<Longrightarrow> 2 \<le> char_to_int h major \<Longrightarrow>
   read_header_length h major (b0 # b1 # b2 # b3 # rest)
     = Inr (of_char b3 + 256 * (of_char b2 + 256 * (of_char b1 + 256 * of_char b0)), rest)"
  by (simp add: read_header_length_def file_read_def bind_def system_is_little_endian_def
      uint_of_mem_def swap_bytes_def swap_bytes_width_1)

section \<open>Format codec: the layout flag\<close>



lemma f_order_loop_token:
  "loc1 + i = length pre \<Longrightarrow> header = pre @ body @ CHR '','' # rest \<Longrightarrow>
   CHR '','' \<notin> set body \<Longrightarrow>
   f_order_loop header loc1 i acc = Inr (acc @ filter (\<lambda>c. c \<noteq> CHR '' '') body)"
proof (induction body arbitrary: pre i acc)
  case Nil
  then show ?case by (subst f_order_loop.simps) (simp add: nth_append)
next
  case (Cons b body)
  have at: "header ! (loc1 + i) = b" and lt: "loc1 + i < length header"
    using Cons.prems by (simp_all add: nth_append)
  have next_step: "f_order_loop header loc1 (i + 1) acc'
        = Inr (acc' @ filter (\<lambda>c. c \<noteq> CHR '' '') body)" for acc'
    using Cons.prems by (intro Cons.IH [of "i + 1" "pre @ [b]"]) simp_all
  from Cons.prems have "b \<noteq> CHR '',''" by auto
  then show ?case
    using at lt next_step by (subst f_order_loop.simps) (simp add: Let_def)
qed



section \<open>Format codec: where the payload begins\<close>

lemma digit_not_zero_byte: "d < 10 \<Longrightarrow> digit d \<noteq> CHR 0x00"
proof -
  assume "d < 10"
  then have "d = 0 \<or> d = 1 \<or> d = 2 \<or> d = 3 \<or> d = 4 \<or> d = 5 \<or> d = 6 \<or> d = 7
      \<or> d = 8 \<or> d = 9"
    by presburger
  then show ?thesis by (elim disjE; simp add: digit_def)
qed

lemma to_string_no_zero_byte: "CHR 0x00 \<notin> set (to_string n)"
proof (induction n rule: to_string.induct)
  case (1 n)
  show ?case
  proof (cases "n < 10")
    case True
    then show ?thesis
      by (subst to_string.simps) (simp add: digit_not_zero_byte [THEN not_sym])
  next
    case False
    have "n mod 10 < 10" by simp
    then have "digit (n mod 10) \<noteq> CHR 0x00" by (rule digit_not_zero_byte)
    with False 1 show ?thesis
      by (subst to_string.simps) auto
  qed
qed

lemma shape_text_no_zero_byte: "CHR 0x00 \<notin> set (shape_text shp)"
  by (induction shp) (simp_all add: shape_text_def to_string_no_zero_byte)

lemma DType_to_descr_no_zero_byte: "CHR 0x00 \<notin> set (DType_to_descr dtype)"
  by (cases dtype) simp_all

lemma header_text_no_zero_byte: "CHR 0x00 \<notin> set (header_text h shp dtype c)"
  by (simp add: header_text_def shape_text_no_zero_byte DType_to_descr_no_zero_byte)

lemma padded_header_no_zero_byte:
  "CHR 0x00 \<notin> set header \<Longrightarrow>
   takeWhile (\<lambda>c. c \<noteq> CHR 0x00) (padded_header header) = padded_header header"
  by (rule takeWhile_eq_all_conv [THEN iffD2]) (auto simp: padded_header_def)

lemma padded_header_zero_free:
  "CHR 0x00 \<notin> set header \<Longrightarrow> CHR 0x00 \<notin> set (padded_header header)"
  by (auto simp: padded_header_def)

lemma padding_needed_bounds: "1 \<le> padding_needed n \<and> padding_needed n \<le> 64"
proof -
  have "(6 + 2 + 2 + n) mod 64 < 64" by simp
  then show ?thesis unfolding padding_needed_def by linarith
qed

lemma length_padded_header:
  "length (padded_header header) = length header + padding_needed (length header)"
  using padding_needed_bounds [of "length header"] by (simp add: padded_header_def)

lemma length_le_bytes: "length (le_bytes w v) = w"
  by (induction w arbitrary: v) simp_all

lemma length_field_little_endian:
  "length_field h major n
     = Inr (if major = 1 then le_bytes 2 (n mod 2 ^ 16) else le_bytes 4 (n mod 2 ^ 32))"
proof (cases "little_endian h")
  case True
  then show ?thesis
    by (simp add: length_field_def mem_of_uint_def system_is_little_endian_def)
next
  case False
  have two: "swap_two_bytes 0 (rev (le_bytes 2 v)) = Inr (le_bytes 2 v)" for v
    using swap_two_bytes_rev [of 0 "rev (le_bytes 2 v)"] by (simp add: length_le_bytes)
  have four: "swap_four_bytes 0 (rev (le_bytes 4 v)) = Inr (le_bytes 4 v)" for v
    using swap_four_bytes_rev [of 0 "rev (le_bytes 4 v)"] by (simp add: length_le_bytes)
  from False show ?thesis
    by (simp add: length_field_def mem_of_uint_def system_is_little_endian_def two four
        del: le_bytes.simps)
qed

lemma preamble_value:
  "preamble h shp dtype c
     = Inr (magic @ [char_of (major_version (length (header_text h shp dtype c))), CHR 0x00]
            @ (if major_version (length (header_text h shp dtype c)) = 1
               then le_bytes 2 (length (padded_header (header_text h shp dtype c)) mod 2 ^ 16)
               else le_bytes 4 (length (padded_header (header_text h shp dtype c)) mod 2 ^ 32))
            @ padded_header (header_text h shp dtype c))"
  by (simp add: preamble_def Let_def bind_def length_field_little_endian
      padded_header_no_zero_byte header_text_no_zero_byte del: le_bytes.simps)

lemma length_preamble:
  assumes "preamble h shp dtype c = Inr pre"
  shows "length pre
         = 8 + (if major_version (length (header_text h shp dtype c)) = 1 then 2 else 4)
           + length (header_text h shp dtype c)
           + padding_needed (length (header_text h shp dtype c))"
  using assms unfolding preamble_value
  by (auto simp: length_le_bytes length_padded_header magic_def simp del: le_bytes.simps)

text \<open>
  The offset of the payload in every file: a multiple of 64 under version 1, and 2 more
  than a multiple of 64 under version 2.
\<close>

lemma payload_offset_mod_64:
  assumes "preamble h shp dtype c = Inr pre"
  shows "length pre mod 64
         = (if major_version (length (header_text h shp dtype c)) = 1 then 0 else 2)"
proof -
  let ?n = "length (header_text h shp dtype c)"
  have z: "(10 + n + padding_needed n) mod 64 = 0" for n :: nat
  proof -
    define q where "q = (10 + n) div 64"
    define r where "r = (10 + n) mod 64"
    have e: "10 + n = 64 * q + r" by (simp add: q_def r_def)
    have r: "r < 64" by (simp add: r_def)
    from e r have "10 + n + (64 - r) = 64 * (q + 1)" by arith
    moreover have "(64 * (q + 1)) mod 64 = 0" by simp
    ultimately have "(10 + n + (64 - r)) mod 64 = 0" by (simp only:)
    then show ?thesis by (simp add: padding_needed_def r_def)
  qed
  have s: "k mod 64 = 0 \<Longrightarrow> (2 + k) mod 64 = 2" for k :: nat
  proof -
    assume "k mod 64 = 0"
    moreover have "(2 + k) mod 64 = (2 + k mod 64) mod 64"
      by (rule mod_add_right_eq [symmetric])
    ultimately show ?thesis by simp
  qed
  have "(2 + (10 + ?n + padding_needed ?n)) mod 64 = 2"
    using z [of ?n] by (rule s)
  then have m: "(10 + ?n + padding_needed ?n) mod 64 = 0
      \<and> (12 + ?n + padding_needed ?n) mod 64 = 2"
    using z [of ?n] by (simp add: add.assoc)
  have "length pre = (if major_version ?n = 1 then 10 else 12) + ?n + padding_needed ?n"
    using length_preamble [OF assms] by simp
  with m show ?thesis by simp
qed

lemma write_npy_layout:
  assumes "write_npy h data_ptr shp dtype c = Inr file"
  shows "\<exists>pre payload. preamble h shp dtype c = Inr pre \<and> file = pre @ payload"
proof (cases "preamble h shp dtype c")
  case (Inl e)
  with assms show ?thesis
    by (cases "number_of_elements shp") (simp_all add: write_npy_def bind_def)
next
  case (Inr pre)
  with assms show ?thesis
    by (cases "number_of_elements shp")
       (auto simp: write_npy_def bind_def Let_def split: if_splits)
qed

lemma to_string_1: "to_string (Suc 0) = ''1''"
  by (simp add: to_string.simps digit_def)

lemma length_shape_text_ones: "length (shape_text (replicate n 1)) = 2 * n"
  by (induction n) (simp_all add: shape_text_def to_string_1)

lemma ne_loop_ones: "ne_loop ne (replicate n 1) = ne"
  by (induction n arbitrary: ne) simp_all

lemma length_header_text:
  "length (header_text h shp dtype c)
   = 46 + length (DType_to_descr dtype) + (if c then 7 else 6) + length (shape_text shp)"
  by (simp add: header_text_def)

lemma char_of_2: "char_of (2 :: nat) = CHR 0x02"
  by code_simp

text \<open>
  C3 at a failing input: a \<^verbatim>\<open>double\<close> array of rank 32768 with every extent 1 (one
  element, eight bytes). The header text has 65591 bytes, version 2 is selected, and the
  payload begins at byte 65666, which is 2 more than a multiple of 64.
\<close>

theorem payload_offset_version_2:
  "\<exists>pre. write_npy \<lparr>little_endian = True, char_signed = True\<rparr> ''abcdefgh''
            (replicate 32768 1) DOUBLE64 True = Inr (pre @ ''abcdefgh'')
        \<and> preamble \<lparr>little_endian = True, char_signed = True\<rparr>
            (replicate 32768 1) DOUBLE64 True = Inr pre
        \<and> pre ! 6 = CHR 0x02
        \<and> length pre = 65666
        \<and> length pre mod 64 = 2"
proof -
  let ?h = "\<lparr>little_endian = True, char_signed = True\<rparr>"
  let ?shp = "replicate 32768 (1 :: size_t)"
  have n: "length (header_text ?h ?shp DOUBLE64 True) = 65591"
    by (simp add: length_header_text length_shape_text_ones)
  have mv: "major_version 65591 = 2"
    by (simp add: major_version_def padding_needed_def)
  have pn: "padding_needed 65591 = 63"
    by (simp add: padding_needed_def)
  obtain pre where pre: "preamble ?h ?shp DOUBLE64 True = Inr pre"
    unfolding preamble_value by blast
  have len: "length pre = 65666"
    using length_preamble [OF pre] by (simp add: n mv pn)
  have six: "pre ! 6 = CHR 0x02"
    using pre unfolding preamble_value n mv by (auto simp: magic_def char_of_2)
  have "replicate 32768 (1 :: size_t) = 1 # replicate 32767 1"
    by (simp add: replicate_Suc [symmetric] del: replicate_Suc)
  then have ne: "number_of_elements ?shp = Inr 1"
    by (simp add: ne_loop_ones)
  have "write_npy ?h ''abcdefgh'' ?shp DOUBLE64 True = Inr (pre @ ''abcdefgh'')"
    by (simp add: write_npy_def bind_def ne pre)
  with pre len six show ?thesis by simp
qed

section \<open>Persistence: a round trip that fails\<close>

lemma to_string_0: "to_string 0 = ''0''"
  by (simp add: to_string.simps digit_def)

lemma to_string_3000000000: "to_string 3000000000 = ''3000000000''"
  by (simp add: to_string.simps digit_def)

lemma header_text_large_extent:
  "header_text \<lparr>little_endian = True, char_signed = True\<rparr> [0, 3000000000] CHAR' True
   = ''{'descr': '<b1', 'fortran_order': False, 'shape': (0,3000000000,), }''"
  by (simp add: header_text_def shape_text_def to_string_0 to_string_3000000000
      system_is_little_endian_def)

lemma padded_header_large_extent:
  "padded_header ''{'descr': '<b1', 'fortran_order': False, 'shape': (0,3000000000,), }''
   = ''{'descr': '<b1', 'fortran_order': False, 'shape': (0,3000000000,), }''
     @ replicate 49 (CHR 0x20) @ [CHR 0x0A]"
  by (simp add: padded_header_def padding_needed_def)

lemma char_of_1: "char_of (Suc 0) = CHR 0x01"
  by code_simp

lemma preamble_large_extent:
  "preamble \<lparr>little_endian = True, char_signed = True\<rparr> [0, 3000000000] CHAR' True
   = Inr (magic @ [CHR 0x01, CHR 0x00] @ [char_of (118 :: nat), char_of (0 :: nat)]
          @ ''{'descr': '<b1', 'fortran_order': False, 'shape': (0,3000000000,), }''
          @ replicate 49 (CHR 0x20) @ [CHR 0x0A])"
proof -
  have mv: "major_version 68 = 1"
    by (simp add: major_version_def padding_needed_def)
  have "le_bytes (Suc (Suc 0)) 118 = [char_of (118 :: nat), char_of (0 :: nat)]"
    by simp
  moreover have "(2 :: nat) = Suc (Suc 0)" by simp
  ultimately have lb: "le_bytes 2 118 = [char_of (118 :: nat), char_of (0 :: nat)]"
    by (simp only:)
  have n: "length (header_text \<lparr>little_endian = True, char_signed = True\<rparr>
      [0, 3000000000] CHAR' True) = 68"
    by (simp add: header_text_large_extent)
  have pl: "length (padded_header (header_text \<lparr>little_endian = True, char_signed = True\<rparr>
      [0, 3000000000] CHAR' True)) = 118"
    by (simp add: length_padded_header n padding_needed_def)
  have m: "(118 :: nat) mod 2 ^ 16 = 118" by simp
  show ?thesis
    unfolding preamble_value n pl mv m
    unfolding header_text_large_extent padded_header_large_extent
    by (simp add: lb char_of_1 del: le_bytes.simps)
qed

lemma save_large_extent:
  "save (Some CHAR') \<lparr>little_endian = True, char_signed = True\<rparr>
     \<lparr>data' = [], shape' = [0, 3000000000], c_continuous' = True, dimensions' = 2\<rparr>
   = Inr (magic @ [CHR 0x01, CHR 0x00] @ [char_of (118 :: nat), char_of (0 :: nat)]
          @ ''{'descr': '<b1', 'fortran_order': False, 'shape': (0,3000000000,), }''
          @ replicate 49 (CHR 0x20) @ [CHR 0x0A])"
  by (simp add: save_def expected_DType_def write_npy_def bind_def preamble_large_extent)

text \<open>
  The header buffer of a written file holds no zero byte, so the header string runs on
  into the memory behind the buffer; \<open>g\<close> below is what it takes from there.
\<close>

lemma string_of_buffer_no_zero_byte:
  "CHR 0x00 \<notin> set buffer \<Longrightarrow>
   string_of_buffer buffer beyond
     = (if CHR 0x00 \<in> set beyond
        then Inr (buffer @ takeWhile (\<lambda>c. c \<noteq> CHR 0x00) beyond) else Inl Undefined)"
  by (simp add: string_of_buffer_def)

lemma read_header_large_extent:
  "read_header \<lparr>little_endian = True, char_signed = True\<rparr> beyond
     (magic @ [CHR 0x01, CHR 0x00] @ [char_of (118 :: nat), char_of (0 :: nat)]
      @ ''{'descr': '<b1', 'fortran_order': False, 'shape': (0,3000000000,), }''
      @ replicate 49 (CHR 0x20) @ [CHR 0x0A])
   = (if CHR 0x00 \<in> set beyond
      then Inr (''{'descr': '<b1', 'fortran_order': False, 'shape': (0,3000000000,), }''
                @ replicate 49 (CHR 0x20) @ [CHR 0x0A]
                @ takeWhile (\<lambda>c. c \<noteq> CHR 0x00) beyond, [])
      else Inl Undefined)"
  by (simp add: read_header_def file_read_def bind_def magic_def read_header_length_def
      system_is_little_endian_def uint_of_mem_def string_of_buffer_no_zero_byte)

lemma parse_fortran_order_large_extent:
  "parse_fortran_order
     (''{'descr': '<b1', 'fortran_order': False, 'shape': (0,3000000000,), }''
      @ replicate 49 (CHR 0x20) @ [CHR 0x0A] @ g)
   = Inr True"
  by (simp add: parse_fortran_order_def find_def add_size_t_def npos_def bind_def
      f_order_loop.simps)

lemma parse_descr_large_extent:
  "parse_descr
     (''{'descr': '<b1', 'fortran_order': False, 'shape': (0,3000000000,), }''
      @ replicate 49 (CHR 0x20) @ [CHR 0x0A] @ g)
   = Inr (True, CHAR')"
  by (simp add: parse_descr_def find_def add_size_t_def npos_def bind_def str_at_def
      descr_loop.simps descr_to_DType_def)

lemma stoi_0: "stoi ''0'' = Inr 0"
  by (simp add: stoi_def isspace_def isdigit_def)

lemma stoi_3000000000: "stoi ''3000000000'' = Inl (Throw StoiOutOfRange)"
  by (simp add: stoi_def isspace_def isdigit_def)

lemma parse_shape_large_extent:
  "parse_shape
     (''{'descr': '<b1', 'fortran_order': False, 'shape': (0,3000000000,), }''
      @ replicate 49 (CHR 0x20) @ [CHR 0x0A] @ g)
   = Inl (Throw StoiOutOfRange)"
  by (simp add: parse_shape_def find_def add_size_t_def npos_def bind_def
      shape_loop.simps stoi_0 stoi_3000000000)

text \<open>
  C1 at a failing input, on a little-endian host: an array of no elements with shape
  \<open>[0, 3000000000]\<close>, as the shape constructor builds it whatever the allocator grants.
  \<open>save\<close> writes the file; \<open>load\<close> of that file never returns an array: whatever lies behind
  the header buffer, it ends in the \<^verbatim>\<open>std::out_of_range\<close> that \<^verbatim>\<open>std::stoi\<close> throws for the
  second extent, which does not fit an \<^verbatim>\<open>int\<close>, unless the header string finds no end
  in memory at all.
\<close>

theorem round_trip_large_extent:
  "NPArray_shape m [] [0, 3000000000] True
     = Inr \<lparr>data' = [], shape' = [0, 3000000000], c_continuous' = True, dimensions' = 2\<rparr>
   \<and> (\<exists>file.
        save (Some CHAR') \<lparr>little_endian = True, char_signed = True\<rparr>
          \<lparr>data' = [], shape' = [0, 3000000000], c_continuous' = True, dimensions' = 2\<rparr>
          = Inr file
      \<and> load (Some CHAR') \<lparr>little_endian = True, char_signed = True\<rparr> beyond file
          = (if CHR 0x00 \<in> set beyond then Inl (Throw StoiOutOfRange) else Inl Undefined)
      \<and> load (Some CHAR') \<lparr>little_endian = True, char_signed = True\<rparr> [CHR 0x00] file
          = Inl (Throw StoiOutOfRange))"
proof -
  let ?h = "\<lparr>little_endian = True, char_signed = True\<rparr>"
  let ?file = "magic @ [CHR 0x01, CHR 0x00] @ [char_of (118 :: nat), char_of (0 :: nat)]
          @ ''{'descr': '<b1', 'fortran_order': False, 'shape': (0,3000000000,), }''
          @ replicate 49 (CHR 0x20) @ [CHR 0x0A]"
  have n: "load_npy ?h b ?file
      = (if CHR 0x00 \<in> set b then Inl (Throw StoiOutOfRange) else Inl Undefined)" for b
  proof (cases "CHR 0x00 \<in> set b")
    case True
    then show ?thesis
      by (simp only: load_npy_def read_header_large_extent bind_def sum.case prod.case
          parse_fortran_order_large_extent parse_descr_large_extent parse_shape_large_extent
          if_True)
  next
    case False
    then show ?thesis
      by (simp only: load_npy_def read_header_large_extent bind_def sum.case if_False)
  qed
  have l: "load (Some CHAR') ?h b ?file
      = (if CHR 0x00 \<in> set b then Inl (Throw StoiOutOfRange) else Inl Undefined)" for b
    unfolding load_def n by (simp add: expected_DType_def bind_def)
  show ?thesis
  proof (intro conjI exI)
    show "NPArray_shape m [] [0, 3000000000] True
        = Inr \<lparr>data' = [], shape' = [0, 3000000000], c_continuous' = True,
               dimensions' = 2\<rparr>"
      by (simp add: NPArray_shape_def bind_def resize_def)
    show "save (Some CHAR') ?h
          \<lparr>data' = [], shape' = [0, 3000000000], c_continuous' = True, dimensions' = 2\<rparr>
          = Inr ?file"
      by (rule save_large_extent)
    show "load (Some CHAR') ?h beyond ?file
          = (if CHR 0x00 \<in> set beyond then Inl (Throw StoiOutOfRange) else Inl Undefined)"
      by (rule l)
    show "load (Some CHAR') ?h [CHR 0x00] ?file = Inl (Throw StoiOutOfRange)"
      unfolding l by simp
  qed
qed

section \<open>Persistence: a round trip that succeeds\<close>

lemma to_string_2: "to_string 2 = ''2''"
  by (simp add: to_string.simps digit_def)

lemma to_string_3: "to_string 3 = ''3''"
  by (simp add: to_string.simps digit_def)

lemma header_text_small:
  "header_text \<lparr>little_endian = True, char_signed = True\<rparr> [2, 3] INT16 False
   = ''{'descr': '<i2', 'fortran_order': True, 'shape': (2,3,), }''"
  by (simp add: header_text_def shape_text_def to_string_2 to_string_3
      system_is_little_endian_def)

lemma padded_header_small:
  "padded_header ''{'descr': '<i2', 'fortran_order': True, 'shape': (2,3,), }''
   = ''{'descr': '<i2', 'fortran_order': True, 'shape': (2,3,), }''
     @ replicate 59 (CHR 0x20) @ [CHR 0x0A]"
  by (simp add: padded_header_def padding_needed_def)

lemma preamble_small:
  "preamble \<lparr>little_endian = True, char_signed = True\<rparr> [2, 3] INT16 False
   = Inr (magic @ [CHR 0x01, CHR 0x00] @ [char_of (118 :: nat), char_of (0 :: nat)]
          @ ''{'descr': '<i2', 'fortran_order': True, 'shape': (2,3,), }''
          @ replicate 59 (CHR 0x20) @ [CHR 0x0A])"
proof -
  have mv: "major_version 58 = 1"
    by (simp add: major_version_def padding_needed_def)
  have "le_bytes (Suc (Suc 0)) 118 = [char_of (118 :: nat), char_of (0 :: nat)]"
    by simp
  moreover have "(2 :: nat) = Suc (Suc 0)" by simp
  ultimately have lb: "le_bytes 2 118 = [char_of (118 :: nat), char_of (0 :: nat)]"
    by (simp only:)
  have n: "length (header_text \<lparr>little_endian = True, char_signed = True\<rparr>
      [2, 3] INT16 False) = 58"
    by (simp add: header_text_small)
  have pl: "length (padded_header (header_text \<lparr>little_endian = True, char_signed = True\<rparr>
      [2, 3] INT16 False)) = 118"
    by (simp add: length_padded_header n padding_needed_def)
  have m: "(118 :: nat) mod 2 ^ 16 = 118" by simp
  show ?thesis
    unfolding preamble_value n pl mv m
    unfolding header_text_small padded_header_small
    by (simp add: lb char_of_1 del: le_bytes.simps)
qed

lemma save_small:
  "save (Some INT16) \<lparr>little_endian = True, char_signed = True\<rparr>
     \<lparr>data' = [''ab'', ''cd'', ''ef'', ''gh'', ''ij'', ''kl''], shape' = [2, 3],
        c_continuous' = False, dimensions' = 2\<rparr>
   = Inr ((magic @ [CHR 0x01, CHR 0x00] @ [char_of (118 :: nat), char_of (0 :: nat)]
           @ ''{'descr': '<i2', 'fortran_order': True, 'shape': (2,3,), }''
           @ replicate 59 (CHR 0x20) @ [CHR 0x0A]) @ ''abcdefghijkl'')"
  by (simp add: save_def expected_DType_def write_npy_def bind_def preamble_small)

lemma read_header_small:
  "CHR 0x00 \<in> set beyond \<Longrightarrow>
   read_header \<lparr>little_endian = True, char_signed = True\<rparr> beyond
     ((magic @ [CHR 0x01, CHR 0x00] @ [char_of (118 :: nat), char_of (0 :: nat)]
       @ ''{'descr': '<i2', 'fortran_order': True, 'shape': (2,3,), }''
       @ replicate 59 (CHR 0x20) @ [CHR 0x0A]) @ ''abcdefghijkl'')
   = Inr (''{'descr': '<i2', 'fortran_order': True, 'shape': (2,3,), }''
          @ replicate 59 (CHR 0x20) @ [CHR 0x0A]
          @ takeWhile (\<lambda>c. c \<noteq> CHR 0x00) beyond, ''abcdefghijkl'')"
  by (simp add: read_header_def file_read_def bind_def magic_def read_header_length_def
      system_is_little_endian_def uint_of_mem_def string_of_buffer_no_zero_byte)

lemma parse_fortran_order_small:
  "parse_fortran_order
     (''{'descr': '<i2', 'fortran_order': True, 'shape': (2,3,), }''
      @ replicate 59 (CHR 0x20) @ [CHR 0x0A] @ g)
   = Inr False"
  by (simp add: parse_fortran_order_def find_def add_size_t_def npos_def bind_def
      f_order_loop.simps)

lemma parse_descr_small:
  "parse_descr
     (''{'descr': '<i2', 'fortran_order': True, 'shape': (2,3,), }''
      @ replicate 59 (CHR 0x20) @ [CHR 0x0A] @ g)
   = Inr (True, INT16)"
  by (simp add: parse_descr_def find_def add_size_t_def npos_def bind_def str_at_def
      descr_loop.simps descr_to_DType_def)

lemma stoi_2: "stoi ''2'' = Inr 2"
  by (simp add: stoi_def isspace_def isdigit_def)

lemma stoi_3: "stoi ''3'' = Inr 3"
  by (simp add: stoi_def isspace_def isdigit_def)

lemma parse_shape_small:
  "parse_shape
     (''{'descr': '<i2', 'fortran_order': True, 'shape': (2,3,), }''
      @ replicate 59 (CHR 0x20) @ [CHR 0x0A] @ g)
   = Inr [2, 3]"
  by (simp add: parse_shape_def find_def add_size_t_def npos_def bind_def
      shape_loop.simps stoi_2 stoi_3)

lemma read_data_small:
  "read_data \<lparr>little_endian = True, char_signed = True\<rparr> True INT16 [2, 3] ''abcdefghijkl''
   = Inr ''abcdefghijkl''"
  by (simp add: read_data_def bind_def file_read_def system_is_little_endian_def)

lemma load_npy_small:
  "CHR 0x00 \<in> set beyond \<Longrightarrow>
   load_npy \<lparr>little_endian = True, char_signed = True\<rparr> beyond
     ((magic @ [CHR 0x01, CHR 0x00] @ [char_of (118 :: nat), char_of (0 :: nat)]
       @ ''{'descr': '<i2', 'fortran_order': True, 'shape': (2,3,), }''
       @ replicate 59 (CHR 0x20) @ [CHR 0x0A]) @ ''abcdefghijkl'')
   = Inr (''abcdefghijkl'', [2, 3], INT16, False)"
  by (simp only: load_npy_def read_header_small bind_def sum.case prod.case
      parse_fortran_order_small parse_descr_small parse_shape_small read_data_small)

lemma elements_small:
  "elements_of 2 6 ''abcdefghijkl'' = Inr [''ab'', ''cd'', ''ef'', ''gh'', ''ij'', ''kl'']"
  by (simp add: elements_of_def upt_rec)

lemma load_small:
  "CHR 0x00 \<in> set beyond \<Longrightarrow>
   load (Some INT16) \<lparr>little_endian = True, char_signed = True\<rparr> beyond
      ((magic @ [CHR 0x01, CHR 0x00] @ [char_of (118 :: nat), char_of (0 :: nat)]
           @ ''{'descr': '<i2', 'fortran_order': True, 'shape': (2,3,), }''
           @ replicate 59 (CHR 0x20) @ [CHR 0x0A]) @ ''abcdefghijkl'')
    = Inr \<lparr>data' = [''ab'', ''cd'', ''ef'', ''gh'', ''ij'', ''kl''], shape' = [2, 3],
          c_continuous' = False, dimensions' = 2\<rparr>"
proof -
  assume z: "CHR 0x00 \<in> set beyond"
  show ?thesis
    unfolding load_def load_npy_small [OF z]
    by (simp add: expected_DType_def bind_def elements_small NPArray_data_def)
qed

text \<open>
  On a little-endian host, a column-major \<^verbatim>\<open>int16_t\<close> array of shape \<open>[2,3]\<close> is saved
  and reloaded as it was, wherever the header string ends behind the buffer.
\<close>

lemma round_trip_small:
  "CHR 0x00 \<in> set beyond \<Longrightarrow>
   \<exists>file.
     save (Some INT16) \<lparr>little_endian = True, char_signed = True\<rparr>
       \<lparr>data' = [''ab'', ''cd'', ''ef'', ''gh'', ''ij'', ''kl''], shape' = [2, 3],
          c_continuous' = False, dimensions' = 2\<rparr> = Inr file
     \<and> load (Some INT16) \<lparr>little_endian = True, char_signed = True\<rparr> beyond file
       = Inr \<lparr>data' = [''ab'', ''cd'', ''ef'', ''gh'', ''ij'', ''kl''], shape' = [2, 3],
          c_continuous' = False, dimensions' = 2\<rparr>"
  using save_small load_small by blast

section \<open>Array container: the invariant\<close>

text \<open>
  C5, as the code has it. The shape constructor, the shape-and-data constructor and
  \<open>load\<close> return only arrays of rank at least 1 whose element count is the product of
  the extents reduced modulo \<open>2^64\<close>; a successful \<open>reshape\<close> or \<open>reallocate\<close> leaves
  such an array from any array; \<open>reshape\<close> leaves such an array from such an array also
  when it fails, and so does a \<open>reallocate\<close> that fails on its empty-shape test. A
  \<open>reallocate\<close> ends in one of four ways: success, the empty-shape error, or one of the two
  errors of a buffer that cannot grow. In the last two cases the new shape has been
  assigned over the old buffer, and the array left behind is not such an array.
\<close>

theorem invariant_established_and_preserved:
  "(NPArray_shape m z init_shape c = Inr a1 \<longrightarrow> invariant_wrapped a1)
   \<and> (NPArray_data d init_shape c = Inr a2 \<longrightarrow> invariant_wrapped a2)
   \<and> (load T h beyond file = Inr a3 \<longrightarrow> invariant_wrapped a3)
   \<and> (fst (reshape a0 new_shape) = Inr () \<longrightarrow> invariant_wrapped (snd (reshape a0 new_shape)))
   \<and> (fst (reallocate m z a0 new_shape) = Inr () \<longrightarrow>
        invariant_wrapped (snd (reallocate m z a0 new_shape)))
   \<and> (invariant_wrapped a0 \<longrightarrow> invariant_wrapped (snd (reshape a0 new_shape)))
   \<and> (invariant_wrapped a0 \<and> fst (reallocate m z a0 new_shape) = Inl (Throw ShapeEmpty) \<longrightarrow>
        invariant_wrapped (snd (reallocate m z a0 new_shape)))
   \<and> fst (reallocate m z a0 new_shape)
        \<in> {Inr (), Inl (Throw ShapeEmpty), Inl (Throw LengthError), Inl (Throw BadAlloc)}
   \<and> (fst (reallocate m z a0 new_shape) = Inl (Throw LengthError)
        \<or> fst (reallocate m z a0 new_shape) = Inl (Throw BadAlloc) \<longrightarrow>
        snd (reallocate m z a0 new_shape)
          = a0\<lparr>shape' := new_shape, dimensions' := length new_shape\<rparr>
        \<and> \<not> invariant_wrapped (snd (reallocate m z a0 new_shape)))"
proof -
  let ?n = "shape_product new_shape mod 2 ^ 64"
  let ?r = "resize m z ?n (data' a0)"
  let ?a = "a0\<lparr>shape' := new_shape, dimensions' := length new_shape\<rparr>"
  have empty: "new_shape = [] \<Longrightarrow> reallocate m z a0 new_shape = (Inl (Throw ShapeEmpty), a0)"
    by (simp add: reallocate_cases)
  have granted: "new_shape \<noteq> [] \<Longrightarrow> ?r = Inr ys \<Longrightarrow>
      reallocate m z a0 new_shape = (Inr (), ?a\<lparr>data' := ys\<rparr>)" for ys
    by (simp add: reallocate_cases)
  have refused: "new_shape \<noteq> [] \<Longrightarrow> ?r = Inl e \<Longrightarrow>
      reallocate m z a0 new_shape = (Inl e, ?a)" for e
    by (simp add: reallocate_cases)
  have after_success: "invariant_wrapped (snd (reallocate m z a0 new_shape))"
    if ok: "fst (reallocate m z a0 new_shape) = Inr ()"
  proof -
    from ok have ne: "new_shape \<noteq> []" using empty by auto
    from ok ne obtain ys where ys: "?r = Inr ys"
      using refused by (cases ?r) auto
    then have "length ys = ?n" by (rule length_resize)
    then show ?thesis
      using ne by (simp add: granted [OF ne ys] invariant_wrapped_def shape_def size_of_def
          Suc_le_eq)
  qed
  have after_refusal: "snd (reallocate m z a0 new_shape) = ?a
        \<and> \<not> invariant_wrapped (snd (reallocate m z a0 new_shape))"
    if bad: "fst (reallocate m z a0 new_shape) = Inl (Throw LengthError)
        \<or> fst (reallocate m z a0 new_shape) = Inl (Throw BadAlloc)"
  proof -
    from bad have ne: "new_shape \<noteq> []" using empty by auto
    from bad ne obtain e where e: "?r = Inl e"
      using granted by (cases ?r) auto
    then have "length (data' a0) < ?n"
      using resize_outcomes [of m z ?n "data' a0"] by auto
    then show ?thesis
      by (simp add: refused [OF ne e] invariant_wrapped_def shape_def size_of_def)
  qed
  have outcomes: "fst (reallocate m z a0 new_shape)
        \<in> {Inr (), Inl (Throw ShapeEmpty), Inl (Throw LengthError), Inl (Throw BadAlloc)}"
  proof (cases "new_shape = []")
    case True
    show ?thesis using empty [OF True] by simp
  next
    case False
    then show ?thesis
      using resize_outcomes [of m z ?n "data' a0"] granted [OF False] refused [OF False]
      by auto
  qed
  show ?thesis
  proof (intro conjI impI)
    show "NPArray_shape m z init_shape c = Inr a1 \<Longrightarrow> invariant_wrapped a1"
      by (rule NPArray_shape_invariant)
    show "NPArray_data d init_shape c = Inr a2 \<Longrightarrow> invariant_wrapped a2"
      by (rule NPArray_data_invariant)
    show "load T h beyond file = Inr a3 \<Longrightarrow> invariant_wrapped a3"
      by (rule load_invariant)
    show "fst (reshape a0 new_shape) = Inr () \<Longrightarrow> invariant_wrapped (snd (reshape a0 new_shape))"
      by (auto simp: reshape_cases invariant_wrapped_def shape_def size_of_def Suc_le_eq
          split: if_splits)
    show "fst (reallocate m z a0 new_shape) = Inr () \<Longrightarrow>
          invariant_wrapped (snd (reallocate m z a0 new_shape))"
      by (rule after_success)
    show "invariant_wrapped a0 \<Longrightarrow> invariant_wrapped (snd (reshape a0 new_shape))"
      by (auto simp: reshape_cases invariant_wrapped_def shape_def size_of_def Suc_le_eq)
    show "invariant_wrapped a0 \<and> fst (reallocate m z a0 new_shape) = Inl (Throw ShapeEmpty) \<Longrightarrow>
          invariant_wrapped (snd (reallocate m z a0 new_shape))"
    proof (cases "new_shape = []")
      case True
      assume "invariant_wrapped a0 \<and> fst (reallocate m z a0 new_shape) = Inl (Throw ShapeEmpty)"
      then show ?thesis using empty [OF True] by simp
    next
      case False
      assume h: "invariant_wrapped a0 \<and> fst (reallocate m z a0 new_shape) = Inl (Throw ShapeEmpty)"
      have "fst (reallocate m z a0 new_shape) \<noteq> Inl (Throw ShapeEmpty)"
        using resize_outcomes [of m z ?n "data' a0"] granted [OF False] refused [OF False]
        by auto
      with h show ?thesis by simp
    qed
    show "fst (reallocate m z a0 new_shape)
        \<in> {Inr (), Inl (Throw ShapeEmpty), Inl (Throw LengthError), Inl (Throw BadAlloc)}"
      by (rule outcomes)
    show "snd (reallocate m z a0 new_shape) = ?a"
      if "fst (reallocate m z a0 new_shape) = Inl (Throw LengthError)
          \<or> fst (reallocate m z a0 new_shape) = Inl (Throw BadAlloc)"
      using after_refusal [OF that] by blast
    show "\<not> invariant_wrapped (snd (reallocate m z a0 new_shape))"
      if "fst (reallocate m z a0 new_shape) = Inl (Throw LengthError)
          \<or> fst (reallocate m z a0 new_shape) = Inl (Throw BadAlloc)"
      using after_refusal [OF that] by blast
  qed
qed

theorem invariant_established_and_preserved_witness:
  "NPArray_shape \<lparr>max_size = 4611686018427387903, available = 1000\<rparr> ''00'' [2, 3] False
     = Inr \<lparr>data' = [''00'', ''00'', ''00'', ''00'', ''00'', ''00''], shape' = [2, 3],
            c_continuous' = False, dimensions' = 2\<rparr>
   \<and> invariant_wrapped \<lparr>data' = [''00'', ''00'', ''00'', ''00'', ''00'', ''00''], shape' = [2, 3],
       c_continuous' = False, dimensions' = 2\<rparr>
   \<and> NPArray_data [''ab'', ''cd'', ''ef'', ''gh'', ''ij'', ''kl''] [2, 3] False
     = Inr \<lparr>data' = [''ab'', ''cd'', ''ef'', ''gh'', ''ij'', ''kl''],
            shape' = [2, 3], c_continuous' = False, dimensions' = 2\<rparr>
   \<and> load (Some INT16) \<lparr>little_endian = True, char_signed = True\<rparr> [CHR 0x00]
       ((magic @ [CHR 0x01, CHR 0x00] @ [char_of (118 :: nat), char_of (0 :: nat)]
           @ ''{'descr': '<i2', 'fortran_order': True, 'shape': (2,3,), }''
           @ replicate 59 (CHR 0x20) @ [CHR 0x0A]) @ ''abcdefghijkl'')
     = Inr \<lparr>data' = [''ab'', ''cd'', ''ef'', ''gh'', ''ij'', ''kl''],
            shape' = [2, 3], c_continuous' = False, dimensions' = 2\<rparr>
   \<and> invariant_wrapped \<lparr>data' = [''ab'', ''cd'', ''ef'', ''gh'', ''ij'', ''kl''],
       shape' = [2, 3], c_continuous' = False, dimensions' = 2\<rparr>
   \<and> reshape \<lparr>data' = [''ab'', ''cd'', ''ef'', ''gh'', ''ij'', ''kl''],
       shape' = [2, 3], c_continuous' = False, dimensions' = 2\<rparr> [3, 2]
     = (Inr (), \<lparr>data' = [''ab'', ''cd'', ''ef'', ''gh'', ''ij'', ''kl''],
       shape' = [3, 2], c_continuous' = False, dimensions' = 2\<rparr>)
   \<and> invariant_wrapped \<lparr>data' = [''ab'', ''cd'', ''ef'', ''gh'', ''ij'', ''kl''],
       shape' = [3, 2], c_continuous' = False, dimensions' = 2\<rparr>
   \<and> reallocate \<lparr>max_size = 4611686018427387903, available = 1000\<rparr> ''00''
       \<lparr>data' = [''ab'', ''cd'', ''ef'', ''gh'', ''ij'', ''kl''],
       shape' = [2, 3], c_continuous' = False, dimensions' = 2\<rparr> [4]
     = (Inr (), \<lparr>data' = [''ab'', ''cd'', ''ef'', ''gh''],
       shape' = [4], c_continuous' = False, dimensions' = 1\<rparr>)
   \<and> invariant_wrapped \<lparr>data' = [''ab'', ''cd'', ''ef'', ''gh''],
       shape' = [4], c_continuous' = False, dimensions' = 1\<rparr>
   \<and> reallocate \<lparr>max_size = 4611686018427387903, available = 1000\<rparr> ''00''
       \<lparr>data' = [''ab'', ''cd'', ''ef'', ''gh'', ''ij'', ''kl''],
       shape' = [2, 3], c_continuous' = False, dimensions' = 2\<rparr> [4611686018427387904]
     = (Inl (Throw LengthError), \<lparr>data' = [''ab'', ''cd'', ''ef'', ''gh'', ''ij'', ''kl''],
       shape' = [4611686018427387904], c_continuous' = False, dimensions' = 1\<rparr>)
   \<and> \<not> invariant_wrapped \<lparr>data' = [''ab'', ''cd'', ''ef'', ''gh'', ''ij'', ''kl''],
       shape' = [4611686018427387904], c_continuous' = False, dimensions' = 1\<rparr>"
proof -
  let ?h = "\<lparr>little_endian = True, char_signed = True\<rparr>"
  let ?m = "\<lparr>max_size = 4611686018427387903, available = 1000\<rparr>"
  let ?file = "(magic @ [CHR 0x01, CHR 0x00] @ [char_of (118 :: nat), char_of (0 :: nat)]
           @ ''{'descr': '<i2', 'fortran_order': True, 'shape': (2,3,), }''
           @ replicate 59 (CHR 0x20) @ [CHR 0x0A]) @ ''abcdefghijkl''"
  let ?z = "\<lparr>data' = [''00'', ''00'', ''00'', ''00'', ''00'', ''00''], shape' = [2, 3],
       c_continuous' = False, dimensions' = 2\<rparr>"
  let ?a = "\<lparr>data' = [''ab'', ''cd'', ''ef'', ''gh'', ''ij'', ''kl''], shape' = [2, 3],
       c_continuous' = False, dimensions' = 2\<rparr>"
  let ?b = "\<lparr>data' = [''ab'', ''cd'', ''ef'', ''gh'', ''ij'', ''kl''], shape' = [3, 2],
       c_continuous' = False, dimensions' = 2\<rparr>"
  let ?c = "\<lparr>data' = [''ab'', ''cd'', ''ef'', ''gh''], shape' = [4],
       c_continuous' = False, dimensions' = 1\<rparr>"
  let ?d = "\<lparr>data' = [''ab'', ''cd'', ''ef'', ''gh'', ''ij'', ''kl''],
       shape' = [4611686018427387904], c_continuous' = False, dimensions' = 1\<rparr>"
  have r: "replicate 6 ''00'' = [''00'', ''00'', ''00'', ''00'', ''00'', ''00'']"
    by (simp add: numeral_eq_Suc)
  have mk: "NPArray_shape ?m ''00'' [2, 3] False = Inr ?z"
    by (simp add: NPArray_shape_def bind_def resize_def r)
  have mk': "NPArray_data [''ab'', ''cd'', ''ef'', ''gh'', ''ij'', ''kl''] [2, 3] False = Inr ?a"
    by (simp add: NPArray_data_def bind_def)
  have ld: "load (Some INT16) ?h [CHR 0x00] ?file = Inr ?a"
    by (rule load_small) simp
  have rs: "reshape ?a [3, 2] = (Inr (), ?b)"
    by (simp add: reshape_def)
  have ra: "reallocate ?m ''00'' ?a [4] = (Inr (), ?c)"
    by (simp add: reallocate_def resize_def)
  have rf: "reallocate ?m ''00'' ?a [4611686018427387904] = (Inl (Throw LengthError), ?d)"
    by (simp add: reallocate_def resize_def)
  note t1 = invariant_established_and_preserved
      [of ?m "''00''" "[2, 3]" False ?z "[''ab'', ''cd'', ''ef'', ''gh'', ''ij'', ''kl'']" ?a
          "Some INT16" ?h "[CHR 0x00]" ?file ?a ?a "[3, 2]"]
  note t2 = invariant_established_and_preserved
      [of ?m "''00''" "[2, 3]" False ?z "[''ab'', ''cd'', ''ef'', ''gh'', ''ij'', ''kl'']" ?a
          "Some INT16" ?h "[CHR 0x00]" ?file ?a ?a "[4]"]
  note t3 = invariant_established_and_preserved
      [of ?m "''00''" "[2, 3]" False ?z "[''ab'', ''cd'', ''ef'', ''gh'', ''ij'', ''kl'']" ?a
          "Some INT16" ?h "[CHR 0x00]" ?file ?a ?a "[4611686018427387904]"]
  have i1: "invariant_wrapped ?z" using t1 mk by blast
  have i2: "invariant_wrapped ?a" using t1 mk' ld by blast
  have "invariant_wrapped (snd (reshape ?a [3, 2]))" using t1 rs by simp
  then have i3: "invariant_wrapped ?b" by (simp only: rs snd_conv)
  have "invariant_wrapped (snd (reallocate ?m ''00'' ?a [4]))" using t2 ra by simp
  then have i4: "invariant_wrapped ?c" by (simp only: ra snd_conv)
  have "fst (reallocate ?m ''00'' ?a [4611686018427387904]) = Inl (Throw LengthError)"
    by (simp only: rf fst_conv)
  then have "\<not> invariant_wrapped (snd (reallocate ?m ''00'' ?a [4611686018427387904]))"
    using t3 by blast
  then have i5: "\<not> invariant_wrapped ?d" unfolding rf snd_conv .
  from mk i1 mk' ld i2 rs i3 ra i4 rf i5 show ?thesis by blast
qed

text \<open>
  C5, as the claim states it, fails three times. The public default constructor gives an
  array whose \<open>shape()\<close> is empty: rank 0 is observable. The shape constructor applied to
  \<open>[2^32, 2^32]\<close> gives an array with no element, while the product of its extents is
  \<open>2^64\<close>. And \<open>reallocate\<close> to \<open>[2^62]\<close> of an array of six \<^verbatim>\<open>int\<close> fails in the growth
  of the buffer, beyond \<^verbatim>\<open>max_size()\<close>, and leaves six elements under the shape \<open>[2^62]\<close>.
\<close>

theorem invariant_exact_counterexample:
  "shape (NPArray_default True 0 :: int NPArray) = []
   \<and> \<not> invariant_exact (NPArray_default True 0 :: int NPArray)
   \<and> NPArray_shape \<lparr>max_size = 2305843009213693951, available = 1000\<rparr> (0 :: int)
         [4294967296, 4294967296] True
       = Inr \<lparr>data' = [], shape' = [4294967296, 4294967296],
              c_continuous' = True, dimensions' = 2\<rparr>
   \<and> \<not> invariant_exact \<lparr>data' = ([] :: int list), shape' = [4294967296, 4294967296],
              c_continuous' = True, dimensions' = 2\<rparr>
   \<and> invariant_exact \<lparr>data' = [10, 11, 12, 13, 14, 15 :: int], shape' = [2, 3],
              c_continuous' = True, dimensions' = 2\<rparr>
   \<and> reallocate \<lparr>max_size = 2305843009213693951, available = 1000\<rparr> (0 :: int)
         \<lparr>data' = [10, 11, 12, 13, 14, 15], shape' = [2, 3],
            c_continuous' = True, dimensions' = 2\<rparr> [4611686018427387904]
       = (Inl (Throw LengthError),
          \<lparr>data' = [10, 11, 12, 13, 14, 15], shape' = [4611686018427387904],
             c_continuous' = True, dimensions' = 1\<rparr>)
   \<and> \<not> invariant_exact \<lparr>data' = [10, 11, 12, 13, 14, 15 :: int],
             shape' = [4611686018427387904], c_continuous' = True, dimensions' = 1\<rparr>"
  by (simp add: NPArray_default_def shape_def invariant_exact_def size_of_def
      NPArray_shape_def reallocate_def bind_def resize_def shape_product_def)

section \<open>Persistence: the round trip on a little-endian host\<close>

subsection \<open>Decimal extents\<close>

lemma digit_cases:
  assumes "d < 10"
  shows "of_char (digit d) = 48 + d \<and> isdigit (digit d) \<and> \<not> isspace (digit d)
         \<and> digit d \<noteq> CHR ''-'' \<and> digit d \<noteq> CHR ''+'' \<and> digit d \<noteq> CHR '',''
         \<and> digit d \<noteq> CHR '')''"
proof -
  from assms have "d = 0 \<or> d = 1 \<or> d = 2 \<or> d = 3 \<or> d = 4 \<or> d = 5 \<or> d = 6 \<or> d = 7
      \<or> d = 8 \<or> d = 9"
    by presburger
  then show ?thesis
    by (elim disjE; simp add: digit_def isdigit_def isspace_def)
qed

lemma to_string_induct_facts:
  "to_string n \<noteq> []
   \<and> (\<forall>c \<in> set (to_string n). isdigit c \<and> \<not> isspace c \<and> c \<noteq> CHR ''-'' \<and> c \<noteq> CHR ''+''
         \<and> c \<noteq> CHR '','' \<and> c \<noteq> CHR '')'')"
proof (induction n rule: to_string.induct)
  case (1 n)
  show ?case
  proof (cases "n < 10")
    case True
    then show ?thesis
      using digit_cases [of n] by (subst (1 2) to_string.simps) simp
  next
    case False
    have "n mod 10 < 10" by simp
    then show ?thesis
      using digit_cases [of "n mod 10"] 1 False
      by (subst (1 2) to_string.simps) auto
  qed
qed

lemma digits_value_snoc:
  "digits_value acc (cs @ [c]) = 10 * digits_value acc cs + (of_char c - 48)"
  by (induction cs arbitrary: acc) simp_all

lemma digits_value_to_string: "digits_value 0 (to_string n) = n"
proof (induction n rule: to_string.induct)
  case (1 n)
  show ?case
  proof (cases "n < 10")
    case True
    then show ?thesis
      using digit_cases [of n] by (subst to_string.simps) simp
  next
    case False
    have "n mod 10 < 10" by simp
    then have "of_char (digit (n mod 10)) - 48 = n mod 10"
      using digit_cases [of "n mod 10"] by simp
    with False 1 show ?thesis
      by (subst to_string.simps) (simp add: digits_value_snoc)
  qed
qed

lemma stoi_to_string:
  assumes "n < 2 ^ 31"
  shows "stoi (to_string n) = Inr (int n)"
proof -
  obtain c cs where s: "to_string n = c # cs"
    using to_string_induct_facts [of n] by (cases "to_string n") auto
  have all: "\<forall>x \<in> set (c # cs). isdigit x \<and> \<not> isspace x \<and> x \<noteq> CHR ''-'' \<and> x \<noteq> CHR ''+''"
    using to_string_induct_facts [of n] unfolding s by blast
  have dw: "dropWhile isspace (c # cs) = c # cs" using all by simp
  have tw: "takeWhile isdigit (c # cs) = c # cs"
    using all by (intro takeWhile_eq_all_conv [THEN iffD2]) blast
  have v: "digits_value 0 (c # cs) = n"
    using digits_value_to_string [of n] unfolding s .
  have c: "c \<noteq> CHR ''-''" "c \<noteq> CHR ''+''" using all by simp_all
  have s2: "(if c # cs \<noteq> [] \<and> (hd (c # cs) = CHR ''-'' \<or> hd (c # cs) = CHR ''+'')
             then tl (c # cs) else c # cs) = c # cs"
    using c by simp
  have neg: "(c # cs \<noteq> [] \<and> hd (c # cs) = CHR ''-'') = False"
    using c by simp
  have "int n \<le> 2 ^ 31 - 1" using assms by simp
  then show ?thesis
    unfolding stoi_def s Let_def dw s2 neg tw v by simp
qed

subsection \<open>The shape field\<close>

lemma shape_loop_digits:
  "CHR '','' \<notin> set ds \<Longrightarrow> header = pre @ ds @ rest \<Longrightarrow> length pre + length ds \<le> loc2 \<Longrightarrow>
   shape_loop header loc2 (length pre) temp acc
     = shape_loop header loc2 (length pre + length ds) (temp @ ds) acc"
proof (induction ds arbitrary: pre temp)
  case Nil
  then show ?case by simp
next
  case (Cons d ds)
  have lt: "length pre < loc2" and at: "header ! length pre = d"
    and inside: "length pre < length header"
    using Cons.prems by (simp_all add: nth_append)
  have d: "d \<noteq> CHR '',''" using Cons.prems(1) by auto
  have "shape_loop header loc2 (length pre) temp acc
        = shape_loop header loc2 (length (pre @ [d])) (temp @ [d]) acc"
    using lt at inside d by (subst shape_loop.simps) (simp add: Let_def)
  also have "\<dots> = shape_loop header loc2 (length (pre @ [d]) + length ds) ((temp @ [d]) @ ds) acc"
    using Cons.prems by (intro Cons.IH) simp_all
  finally show ?case by simp
qed

lemma shape_loop_extent:
  assumes "header = pre @ to_string n @ CHR '','' # rest"
    and "length pre + length (to_string n) < loc2" and "n < 2 ^ 31"
  shows "shape_loop header loc2 (length pre) [] acc
         = shape_loop header loc2 (length pre + length (to_string n) + 1) []
             (acc @ [of_nat n])"
proof -
  let ?ds = "to_string n"
  let ?i = "length pre + length ?ds"
  have nc: "CHR '','' \<notin> set ?ds" and ne: "?ds \<noteq> []"
    using to_string_induct_facts [of n] by blast+
  have "shape_loop header loc2 (length pre) [] acc = shape_loop header loc2 ?i ([] @ ?ds) acc"
    using nc assms(1,2) by (intro shape_loop_digits [where rest = "CHR '','' # rest"]) simp_all
  moreover have "header ! ?i = CHR '',''" and "?i < length header"
    using assms(1) by (simp_all add: nth_append)
  ultimately show ?thesis
    using assms(2) ne stoi_to_string [OF assms(3)]
    by (subst (asm) (2) shape_loop.simps) (simp add: Let_def)
qed

lemma shape_text_Cons:
  "shape_text (s # shp) = to_string (unat s) @ CHR '','' # shape_text shp"
  by (simp add: shape_text_def)

lemma shape_loop_shape_text:
  "header = pre @ shape_text shp @ rest \<Longrightarrow> loc2 = length pre + length (shape_text shp) \<Longrightarrow>
   \<forall>s \<in> set shp. unat s < 2 ^ 31 \<Longrightarrow>
   shape_loop header loc2 (length pre) [] acc = Inr ([], acc @ shp)"
proof (induction shp arbitrary: pre acc)
  case Nil
  then show ?case by (subst shape_loop.simps) (simp add: shape_text_def)
next
  case (Cons s shp)
  let ?ds = "to_string (unat s)"
  have h: "header = pre @ ?ds @ CHR '','' # (shape_text shp @ rest)"
    using Cons.prems(1) by (simp add: shape_text_Cons)
  have lt: "length pre + length ?ds < loc2"
    using Cons.prems(2) by (simp add: shape_text_Cons)
  have s: "unat s < 2 ^ 31" using Cons.prems(3) by simp
  have "shape_loop header loc2 (length pre) [] acc
        = shape_loop header loc2 (length pre + length ?ds + 1) [] (acc @ [of_nat (unat s)])"
    using h lt s by (rule shape_loop_extent)
  also have "\<dots> = shape_loop header loc2 (length (pre @ ?ds @ [CHR '',''])) [] (acc @ [s])"
    by simp
  also have "\<dots> = Inr ([], (acc @ [s]) @ shp)"
    using Cons.prems by (intro Cons.IH) (simp_all add: shape_text_Cons)
  finally show ?case by simp
qed

lemma find_from_char:
  "c \<notin> set pre \<Longrightarrow> find_from [c] (pre @ c # rest) i = i + length pre"
  by (induction pre arbitrary: i) auto

lemma shape_text_no_paren: "CHR '')'' \<notin> set (shape_text shp)"
  using to_string_induct_facts by (induction shp) (auto simp: shape_text_def)

lemma parse_shape_shape_text:
  assumes "header = before @ CHR ''('' # shape_text shp @ CHR '')'' # rest"
    and "CHR ''('' \<notin> set before" and "CHR '')'' \<notin> set before"
    and "shp \<noteq> []" and "\<forall>s \<in> set shp. unat s < 2 ^ 31" and "length before + 1 < 2 ^ 64"
  shows "parse_shape header = Inr shp"
proof -
  let ?st = "shape_text shp"
  have f1: "find header ''('' = length before"
    unfolding find_def assms(1) using find_from_char [OF assms(2), of "?st @ CHR '')'' # rest" 0]
    by simp
  have "CHR '')'' \<notin> set (before @ CHR ''('' # ?st)"
    using assms(3) shape_text_no_paren by simp
  then have "find_from '')'' ((before @ CHR ''('' # ?st) @ CHR '')'' # rest) 0
             = 0 + length (before @ CHR ''('' # ?st)"
    by (rule find_from_char)
  then have f2: "find header '')'' = length before + 1 + length ?st"
    unfolding find_def assms(1) by simp
  have loc1: "add_size_t (length before) 1 = length before + 1"
    using assms(6) by (simp add: add_size_t_def)
  have ne: "?st \<noteq> []"
    using assms(4) by (cases shp) (simp_all add: shape_text_Cons)
  have "shape_loop header (length (before @ ''('') + length ?st) (length (before @ ''('')) [] []
        = Inr ([], [] @ shp)"
    using assms(5) by (intro shape_loop_shape_text [where rest = "CHR '')'' # rest"])
      (simp_all add: assms(1))
  then have sl: "shape_loop header (length before + 1 + length ?st) (length before + 1) [] []
        = Inr ([], shp)"
    by simp
  show ?thesis
    unfolding parse_shape_def Let_def f1 f2 loc1 sl using ne by (simp add: bind_def)
qed

subsection \<open>Reading back what was written\<close>

lemma le_value_le_bytes: "le_value (le_bytes w v) = v mod 256 ^ w"
proof (induction w arbitrary: v)
  case 0
  then show ?case by simp
next
  case (Suc w)
  have "le_value (le_bytes (Suc w) v) = v mod 256 + 256 * ((v div 256) mod 256 ^ w)"
    by (simp add: Suc.IH)
  also have "\<dots> = v mod (256 * 256 ^ w)"
    by (simp add: mod_mult2_eq)
  finally show ?case by simp
qed

lemma file_read_append: "file_read (length xs) (xs @ ys) = Inr (xs, ys)"
  by (simp add: file_read_def)

lemma read_header_length_written:
  assumes "little_endian h" and "major = (1 :: nat) \<or> major = 2"
  shows "read_header_length h (char_of major)
           ((if major = 1 then le_bytes 2 v else le_bytes 4 v) @ rest)
         = Inr (if major = 1 then v mod 2 ^ 16 else v mod 2 ^ 32, rest)"
proof -
  have two: "file_read 2 (le_bytes 2 v @ rest) = Inr (le_bytes 2 v, rest)"
    using file_read_append [of "le_bytes 2 v" rest] by (simp only: length_le_bytes)
  have four: "file_read 4 (le_bytes 4 v @ rest) = Inr (le_bytes 4 v, rest)"
    using file_read_append [of "le_bytes 4 v" rest] by (simp only: length_le_bytes)
  have p: "(256 :: nat) ^ 2 = 2 ^ 16" "(256 :: nat) ^ 4 = 2 ^ 32" by simp_all
  from assms(2) show ?thesis
  proof
    assume "major = 1"
    then show ?thesis
      using assms(1)
      by (simp add: read_header_length_def two bind_def system_is_little_endian_def
          uint_of_mem_def le_value_le_bytes p char_of_1 del: le_bytes.simps)
  next
    assume "major = 2"
    then show ?thesis
      using assms(1)
      by (simp add: read_header_length_def four bind_def system_is_little_endian_def
          uint_of_mem_def le_value_le_bytes p char_of_2 char_to_int_def del: le_bytes.simps)
  qed
qed

lemma descr_loop_token:
  "loc1 + i = length pre \<Longrightarrow> header = pre @ body @ CHR 0x27 # rest \<Longrightarrow>
   CHR 0x27 \<notin> set body \<Longrightarrow> CHR '' '' \<notin> set body \<Longrightarrow>
   descr_loop header loc1 i acc = Inr (acc @ body)"
proof (induction body arbitrary: pre i acc)
  case Nil
  then show ?case by (subst descr_loop.simps) (simp add: nth_append)
next
  case (Cons b body)
  have at: "header ! (loc1 + i) = b" and lt: "loc1 + i < length header"
    using Cons.prems by (simp_all add: nth_append)
  have next_step: "descr_loop header loc1 (i + 1) acc' = Inr (acc' @ body)" for acc'
    using Cons.prems by (intro Cons.IH [of "i + 1" "pre @ [b]"]) simp_all
  from Cons.prems have "b \<noteq> CHR 0x27" "b \<noteq> CHR '' ''" by auto
  then show ?case
    using at lt next_step by (subst descr_loop.simps) (simp add: Let_def)
qed

lemma descr_to_DType_inverse: "descr_to_DType (DType_to_descr dtype) = Inr dtype"
  by (cases dtype) (simp_all add: descr_to_DType_def)

lemma DType_to_descr_chars:
  "CHR 0x27 \<notin> set (DType_to_descr dtype) \<and> CHR '' '' \<notin> set (DType_to_descr dtype)
   \<and> CHR ''('' \<notin> set (DType_to_descr dtype) \<and> CHR '')'' \<notin> set (DType_to_descr dtype)"
  by (cases dtype) simp_all

lemma length_concat_uniform:
  "\<forall>e \<in> set xs. length e = w \<Longrightarrow> length (concat xs) = length xs * w"
  by (induction xs) simp_all

lemma elements_of_concat:
  assumes "\<forall>e \<in> set xs. length e = w"
  shows "elements_of w (length xs) (concat xs) = Inr xs"
proof -
  have "map (\<lambda>k. take w (drop (k * w) (concat xs))) [0..<length xs] = xs" using assms
  proof (induction xs)
    case Nil
    then show ?case by simp
  next
    case (Cons x xs)
    then have x: "length x = w" and rest: "\<forall>e \<in> set xs. length e = w" by simp_all
    have "map (\<lambda>k. take w (drop (k * w) (concat (x # xs)))) [0..<length (x # xs)]
          = take w (x @ concat xs)
            # map (\<lambda>k. take w (drop (Suc k * w) (x @ concat xs))) [0..<length xs]"
      by (simp add: upt_conv_Cons map_Suc_upt [symmetric] del: upt_Suc)
    also have "take w (x @ concat xs) = x" using x by simp
    also have "(\<lambda>k. take w (drop (Suc k * w) (x @ concat xs)))
               = (\<lambda>k. take w (drop (k * w) (concat xs)))"
      using x by (simp add: fun_eq_iff)
    finally show ?case using Cons.IH [OF rest] by simp
  qed
  moreover have "length (concat xs) = length xs * w"
    using assms by (rule length_concat_uniform)
  ultimately show ?thesis
    by (simp add: elements_of_def)
qed

subsection \<open>The three header fields of a written header\<close>

lemma find_fortran_order_key:
  "find (''{'descr': '' @ [CHR 0x27] @ ''<'' @ DType_to_descr dtype @ [CHR 0x27] @ '', ''
         @ ([CHR 0x27] @ ''fortran_order': '') @ rest)
        ([CHR 0x27] @ ''fortran_order': '')
   = 15 + length (DType_to_descr dtype)"
  by (cases dtype) (simp_all add: find_def)

lemma parse_fortran_order_written:
  assumes "little_endian h" and "length (header_text h shp dtype c) < 2 ^ 64"
  shows "parse_fortran_order (header_text h shp dtype c @ tail) = Inr c"
proof -
  define key where "key = [CHR 0x27] @ ''fortran_order': ''"
  define pre where "pre = ''{'descr': '' @ [CHR 0x27] @ ''<'' @ DType_to_descr dtype
      @ [CHR 0x27] @ '', ''"
  define body where "body = (if c then ''False'' else ''True'')"
  define rest where "rest = '' '' @ [CHR 0x27] @ ''shape': ('' @ shape_text shp @ ''), }'' @ tail"
  define header where "header = header_text h shp dtype c @ tail"
  have len: "length key = 17" by (simp add: key_def)
  have lp: "length pre = 15 + length (DType_to_descr dtype)" by (simp add: pre_def)
  have hd: "header = pre @ key @ body @ CHR '','' # rest"
    using assms(1)
    by (simp add: header_def header_text_def system_is_little_endian_def pre_def key_def
        body_def rest_def)
  have f: "find header key = length pre"
    unfolding hd lp unfolding pre_def key_def
    using find_fortran_order_key [of dtype "body @ CHR '','' # rest"] by simp
  have "length (header_text h shp dtype c) \<le> length header"
    by (simp add: header_def)
  then have "length header = length (header_text h shp dtype c) + length tail"
    by (simp add: header_def)
  moreover have "length header = length pre + 17 + length (body @ CHR '','' # rest)"
    unfolding hd by (simp add: len)
  moreover have "length tail \<le> length rest" by (simp add: rest_def)
  ultimately have "length pre + 17 \<le> length (header_text h shp dtype c)" by simp
  then have "length pre + 17 < 2 ^ 64"
    using assms(2) by simp
  then have loc: "add_size_t (find header key) 17 = length pre + 17"
    by (simp add: add_size_t_def f)
  have nc: "CHR '','' \<notin> set body" by (simp add: body_def)
  have "f_order_loop header (length pre + 17) 0 []
        = Inr ([] @ filter (\<lambda>c. c \<noteq> CHR '' '') body)"
    using nc len by (intro f_order_loop_token [of _ _ "pre @ key"]) (simp_all add: hd)
  then have "parse_fortran_order header = Inr (filter (\<lambda>c. c \<noteq> CHR '' '') body = ''False'')"
    unfolding parse_fortran_order_def key_def [symmetric] Let_def loc by (simp add: bind_def)
  then show ?thesis
    unfolding header_def by (simp add: body_def)
qed

lemma parse_descr_written:
  assumes "little_endian h"
  shows "parse_descr (header_text h shp dtype c @ tail) = Inr (True, dtype)"
proof -
  define pre where "pre = ''{'descr': '' @ [CHR 0x27] @ ''<''"
  define rest where "rest = '', '' @ [CHR 0x27] @ ''fortran_order': ''
      @ (if c then ''False, '' else ''True, '') @ [CHR 0x27] @ ''shape': (''
      @ shape_text shp @ ''), }'' @ tail"
  define header where "header = header_text h shp dtype c @ tail"
  have hd: "header = pre @ DType_to_descr dtype @ CHR 0x27 # rest"
    using assms
    by (simp add: header_def header_text_def system_is_little_endian_def pre_def rest_def)
  define key where "key = [CHR 0x27] @ ''descr': ''"
  have f: "find header key = 1"
    unfolding hd pre_def key_def by (simp add: find_def)
  have loc: "add_size_t (find header key) 9 = 10"
    by (simp add: f add_size_t_def)
  have m: "str_at header (10 + 1) = Inr (CHR ''<'')"
    unfolding hd pre_def by (simp add: str_at_def)
  have "descr_loop header 10 2 [] = Inr ([] @ DType_to_descr dtype)"
    using DType_to_descr_chars [of dtype]
    by (intro descr_loop_token [of _ _ pre _ _ rest]) (simp_all add: hd pre_def)
  then have d: "descr_loop header 10 2 [] = Inr (DType_to_descr dtype)" by simp
  have "parse_descr header = Inr (True, dtype)"
    unfolding parse_descr_def key_def [symmetric] Let_def loc m d
    by (simp add: bind_def descr_to_DType_inverse)
  then show ?thesis unfolding header_def .
qed

lemma parse_shape_written:
  assumes "little_endian h" and "shp \<noteq> []" and "\<forall>s \<in> set shp. unat s < 2 ^ 31"
    and "length (header_text h shp dtype c) < 2 ^ 64"
  shows "parse_shape (header_text h shp dtype c @ tail) = Inr shp"
proof -
  define before where "before = ''{'descr': '' @ [CHR 0x27] @ ''<'' @ DType_to_descr dtype
      @ [CHR 0x27] @ '', '' @ [CHR 0x27] @ ''fortran_order': ''
      @ (if c then ''False, '' else ''True, '') @ [CHR 0x27] @ ''shape': ''"
  have hd: "header_text h shp dtype c @ tail
            = before @ CHR ''('' # shape_text shp @ CHR '')'' # ('', }'' @ tail)"
    using assms(1)
    by (simp add: header_text_def system_is_little_endian_def before_def)
  have np: "CHR ''('' \<notin> set before" "CHR '')'' \<notin> set before"
    using DType_to_descr_chars [of dtype] by (simp_all add: before_def)
  have "length (header_text h shp dtype c) = length before + length (shape_text shp) + 5"
    using assms(1) by (simp add: header_text_def system_is_little_endian_def before_def)
  then have lb: "length before + 1 < 2 ^ 64"
    using assms(4) by simp
  show ?thesis
    using hd np assms(2,3) lb by (rule parse_shape_shape_text)
qed

subsection \<open>The round trip\<close>

lemma major_version_cases: "major_version n = 1 \<or> major_version n = 2"
  by (simp add: major_version_def)

lemma read_header_written:
  assumes "little_endian h" and "length (header_text h shp dtype c) + 74 < 2 ^ 32"
    and "preamble h shp dtype c = Inr pre"
  shows "read_header h beyond (pre @ payload)
         = (if CHR 0x00 \<in> set beyond
            then Inr (padded_header (header_text h shp dtype c)
                      @ takeWhile (\<lambda>c. c \<noteq> CHR 0x00) beyond, payload)
            else Inl Undefined)"
proof -
  define H where "H = header_text h shp dtype c"
  define P where "P = padded_header H"
  define mv where "mv = major_version (length H)"
  define lenb where "lenb = (if mv = 1 then le_bytes 2 (length P) else le_bytes 4 (length P))"
  have mvc: "mv = 1 \<or> mv = 2" unfolding mv_def by (rule major_version_cases)
  have lP: "length P = length H + padding_needed (length H)"
    unfolding P_def by (rule length_padded_header)
  have pb: "padding_needed (length H) \<le> 64"
    using padding_needed_bounds [of "length H"] by simp
  have small: "mv = 1 \<Longrightarrow> length P < 2 ^ 16"
    using pb unfolding mv_def major_version_def lP by (simp split: if_splits)
  have big: "length P < 2 ^ 32"
    using assms(2) pb unfolding lP H_def by simp
  have m16: "mv = 1 \<Longrightarrow> length P mod 2 ^ 16 = length P" using small by simp
  have m32: "length P mod 2 ^ 32 = length P" using big by simp
  have pre: "pre = magic @ [char_of mv, CHR 0x00] @ lenb @ P"
    using assms(3) m16 m32 unfolding preamble_value H_def [symmetric] P_def [symmetric]
      mv_def [symmetric] lenb_def
    by (auto simp del: le_bytes.simps)
  have r6: "file_read 6 (magic @ [char_of mv, CHR 0x00] @ lenb @ P @ payload)
            = Inr (magic, [char_of mv, CHR 0x00] @ lenb @ P @ payload)"
    by (simp add: file_read_def magic_def)
  have r1: "file_read 1 ([char_of mv, CHR 0x00] @ lenb @ P @ payload)
            = Inr ([char_of mv], [CHR 0x00] @ lenb @ P @ payload)"
    by (simp add: file_read_def)
  have r1': "file_read 1 ([CHR 0x00] @ lenb @ P @ payload)
            = Inr ([CHR 0x00], lenb @ P @ payload)"
    by (simp add: file_read_def)
  have "read_header_length h (char_of mv)
          ((if mv = 1 then le_bytes 2 (length P) else le_bytes 4 (length P)) @ (P @ payload))
        = Inr (if mv = 1 then length P mod 2 ^ 16 else length P mod 2 ^ 32, P @ payload)"
    using assms(1) mvc by (rule read_header_length_written)
  then have rl: "read_header_length h (hd [char_of mv]) (lenb @ P @ payload)
        = Inr (length P, P @ payload)"
    using m16 m32 unfolding lenb_def by (auto simp del: le_bytes.simps)
  have rP: "file_read (length P) (P @ payload) = Inr (P, payload)"
    by (rule file_read_append)
  have "CHR 0x00 \<notin> set P"
    unfolding P_def H_def
    by (rule padded_header_zero_free) (rule header_text_no_zero_byte)
  then have nz: "string_of_buffer P beyond
      = (if CHR 0x00 \<in> set beyond
         then Inr (P @ takeWhile (\<lambda>c. c \<noteq> CHR 0x00) beyond) else Inl Undefined)"
    by (rule string_of_buffer_no_zero_byte)
  have "read_header h beyond (magic @ [char_of mv, CHR 0x00] @ lenb @ P @ payload)
        = bind (string_of_buffer P beyond) (\<lambda>header. Inr (header, payload))"
    by (simp only: read_header_def r6 r1 r1' rl rP bind_def sum.case prod.case
        simp_thms if_False)
  then have "read_header h beyond (magic @ [char_of mv, CHR 0x00] @ lenb @ P @ payload)
        = (if CHR 0x00 \<in> set beyond
           then Inr (P @ takeWhile (\<lambda>c. c \<noteq> CHR 0x00) beyond, payload)
           else Inl Undefined)"
    unfolding nz by (simp add: bind_def)
  then show ?thesis
    unfolding pre P_def H_def by simp
qed

lemma unat_bytes:
  assumes "unat ne * size_of_DType dtype < 2 ^ 64"
  shows "unat (ne * of_nat (size_of_DType dtype) :: size_t) = unat ne * size_of_DType dtype"
proof -
  have "unat (of_nat (size_of_DType dtype) :: size_t) = size_of_DType dtype"
    by (cases dtype) simp_all
  then show ?thesis
    using assms by (simp add: unat_word_ariths)
qed

text \<open>
  On a little-endian host, an array whose extents are all below \<open>2^31\<close> is saved and
  reloaded as it was: same shape, same layout flag, same bytes in every element. The
  array is one that the constructors build (non-empty shape, rank kept with it, element
  count equal to the product computed in \<^verbatim>\<open>size_t\<close>), its elements have the width of the
  element kind, and its buffer and header have sizes that 64 and 32 bits can hold. The
  written header holds no zero byte, so the header string always runs on behind its
  buffer: the array is reloaded when a zero byte ends the string there, whatever precedes
  that byte.
\<close>

lemma round_trip_little_endian:
  assumes le: "little_endian h"
    and shp: "shape' a \<noteq> []" and dims: "dimensions' a = length (shape' a)"
    and ext: "\<forall>s \<in> set (shape' a). unat s < 2 ^ 31"
    and ne: "number_of_elements (shape' a) = Inr ne" and cnt: "length (data' a) = unat ne"
    and el: "\<forall>e \<in> set (data' a). length e = size_of_DType dtype"
    and nb: "unat ne * size_of_DType dtype < 2 ^ 64"
    and hl: "length (header_text h (shape' a) dtype (c_continuous' a)) + 74 < 2 ^ 32"
  shows "\<exists>file. save (Some dtype) h a = Inr file
           \<and> load (Some dtype) h beyond file
               = (if CHR 0x00 \<in> set beyond then Inr a else Inl Undefined)"
proof -
  define H where "H = header_text h (shape' a) dtype (c_continuous' a)"
  define tail where "tail = replicate (padding_needed (length H) - 1) (CHR 0x20) @ [CHR 0x0A]
      @ takeWhile (\<lambda>c. c \<noteq> CHR 0x00) beyond"
  define w where "w = size_of_DType dtype"
  obtain pre where pre: "preamble h (shape' a) dtype (c_continuous' a) = Inr pre"
    unfolding preamble_value by blast
  have P: "padded_header H @ takeWhile (\<lambda>c. c \<noteq> CHR 0x00) beyond = H @ tail"
    by (simp add: padded_header_def tail_def)
  have bytes: "unat (ne * of_nat (size_of_DType dtype) :: size_t) = length (concat (data' a))"
    using unat_bytes [OF nb] length_concat_uniform [OF el] cnt by simp
  have sv: "save (Some dtype) h a = Inr (pre @ concat (data' a))"
    by (simp add: save_def expected_DType_def write_npy_def bind_def ne pre bytes)
  have rh: "read_header h beyond (pre @ concat (data' a))
            = (if CHR 0x00 \<in> set beyond then Inr (H @ tail, concat (data' a))
               else Inl Undefined)"
    using read_header_written [OF le hl pre, of beyond "concat (data' a)"]
    unfolding H_def [symmetric] P .
  have len: "length H < 2 ^ 64"
    using hl unfolding H_def [symmetric] by simp
  have f: "parse_fortran_order (H @ tail) = Inr (c_continuous' a)"
    unfolding H_def using le len [unfolded H_def] by (rule parse_fortran_order_written)
  have d: "parse_descr (H @ tail) = Inr (True, dtype)"
    unfolding H_def using le by (rule parse_descr_written)
  have s: "parse_shape (H @ tail) = Inr (shape' a)"
    unfolding H_def using le shp ext len [unfolded H_def] by (rule parse_shape_written)
  have "file_read (length (concat (data' a))) (concat (data' a) @ [])
        = Inr (concat (data' a), [])"
    by (rule file_read_append)
  then have rd: "read_data h True dtype (shape' a) (concat (data' a)) = Inr (concat (data' a))"
    using le by (simp add: read_data_def bind_def ne bytes system_is_little_endian_def)
  have eo: "elements_of (size_of_DType dtype) (unat ne) (concat (data' a)) = Inr (data' a)"
    using elements_of_concat [OF el] cnt by simp
  have "load (Some dtype) h beyond (pre @ concat (data' a))
        = (if CHR 0x00 \<in> set beyond then Inr a else Inl Undefined)"
  proof (cases "CHR 0x00 \<in> set beyond")
    case False
    then have "load_npy h beyond (pre @ concat (data' a)) = Inl Undefined"
      by (simp only: load_npy_def rh bind_def sum.case if_False)
    with False show ?thesis
      by (simp add: load_def expected_DType_def bind_def)
  next
    case True
    then have ln: "load_npy h beyond (pre @ concat (data' a))
            = Inr (concat (data' a), shape' a, dtype, c_continuous' a)"
      by (simp only: load_npy_def rh f d s rd bind_def sum.case prod.case if_True)
    have "load (Some dtype) h beyond (pre @ concat (data' a))
          = Inr \<lparr>data' = data' a, shape' = shape' a, c_continuous' = c_continuous' a,
                 dimensions' = length (shape' a)\<rparr>"
      unfolding load_def ln
      using shp cnt by (simp add: expected_DType_def bind_def ne eo NPArray_data_def)
    also have "\<lparr>data' = data' a, shape' = shape' a, c_continuous' = c_continuous' a,
                 dimensions' = length (shape' a)\<rparr> = a"
      using dims by simp
    finally show ?thesis using True by simp
  qed
  then show ?thesis using sv by blast
qed

end
